theory Spec2Isabelle
  imports Main "HOL-Library.Sublist" "HOL-Library.AList" "HOL-Library.Char_ord"
    "HOL-Library.List_Lexorder"
begin

section \<open>umDrive: a file store with per-file JSON metadata\<close>

text \<open>
  The development embeds \<^verbatim>\<open>umdrive.py\<close> (and, for the containment check, its
  sibling \<^verbatim>\<open>umDrive_Teste.py\<close>). A string is a list of 8-bit characters, read as
  the code points U+0000 to U+00FF: text is Latin-1 text, and the character functions
  below (\<^verbatim>\<open>isspace\<close>, \<^verbatim>\<open>lower\<close>, the NFKD decomposition) follow the Unicode
  tables on that range. File contents are text of the same kind: the UTF-8 layer of
  \<^verbatim>\<open>read_text\<close>/\<^verbatim>\<open>write_text\<close> is the identity on the ASCII text that the
  serializer emits. The file system has no symbolic links and every path is absolute.
\<close>

subsection \<open>Python string primitives\<close>

type_synonym bytes = string

text \<open>\<^verbatim>\<open>sep.join(xs)\<close>\<close>

fun join_with :: "string \<Rightarrow> string list \<Rightarrow> string" where
  "join_with sep [] = []"
| "join_with sep [x] = x"
| "join_with sep (x # y # ys) = x @ sep @ join_with sep (y # ys)"

text \<open>\<^verbatim>\<open>s.split(c)\<close> for a one-character separator: never the empty list.\<close>

fun split_on :: "char \<Rightarrow> string \<Rightarrow> string list" where
  "split_on c [] = [[]]"
| "split_on c (x # xs) =
     (if x = c then [] # split_on c xs
      else (case split_on c xs of
              [] \<Rightarrow> [[x]]
            | w # ws \<Rightarrow> (x # w) # ws))"

text \<open>
  \<^verbatim>\<open>str.isspace\<close>: tab to carriage return, the four separators, space, and above
  ASCII the next-line control and the no-break space.
\<close>

definition py_isspace :: "char \<Rightarrow> bool" where
  "py_isspace c =
     (let n = (of_char c :: nat)
      in (9 \<le> n \<and> n \<le> 13) \<or> (28 \<le> n \<and> n \<le> 32) \<or> n = 133 \<or> n = 160)"

text \<open>\<^verbatim>\<open>s.split()\<close>: the maximal runs of non-whitespace; \<open>w\<close> is the run being read, reversed.\<close>

fun split_ws_from :: "string \<Rightarrow> string \<Rightarrow> string list" where
  "split_ws_from w [] = (if w = [] then [] else [rev w])"
| "split_ws_from w (c # cs) =
     (if py_isspace c then (if w = [] then split_ws_from [] cs else rev w # split_ws_from [] cs)
      else split_ws_from (c # w) cs)"

definition split_ws :: "string \<Rightarrow> string list" where
  "split_ws s = split_ws_from [] s"

text \<open>\<^verbatim>\<open>s.strip(chars)\<close>\<close>

definition strip_chars :: "char set \<Rightarrow> string \<Rightarrow> string" where
  "strip_chars cs s = rev (dropWhile (\<lambda>c. c \<in> cs) (rev (dropWhile (\<lambda>c. c \<in> cs) s)))"

text \<open>
  \<^verbatim>\<open>s.lower()\<close>: the letters A to Z and, above ASCII, the capital letters U+00C0 to
  U+00DE (the multiplication sign U+00D7 is no letter) have their small letter 32 places
  on; every other code point below 256 is its own lower case.
\<close>

definition lower_char :: "char \<Rightarrow> char" where
  "lower_char c =
     (let n = (of_char c :: nat)
      in if (65 \<le> n \<and> n \<le> 90) \<or> (192 \<le> n \<and> n \<le> 222 \<and> n \<noteq> 215) then char_of (n + 32)
         else c)"

definition lower :: "string \<Rightarrow> string" where
  "lower s = map lower_char s"

subsection \<open>werkzeug's \<^verbatim>\<open>secure_filename\<close> (POSIX)\<close>

text \<open>
  \<^verbatim>\<open>
  filename = unicodedata.normalize("NFKD", filename)
  filename = filename.encode("ascii", "ignore").decode("ascii")
  for sep in os.sep, os.path.altsep:
      if sep: filename = filename.replace(sep, " ")
  filename = str(_filename_ascii_strip_re.sub("", "_".join(filename.split()))).strip("._")
  \<close>
  with \<^verbatim>\<open>_filename_ascii_strip_re = re.compile(r"[^A-Za-z0-9_.-]")\<close>; on POSIX
  \<^verbatim>\<open>os.sep\<close> is the slash, there is no \<^verbatim>\<open>altsep\<close>, and the Windows device-name
  branch is not taken.
\<close>

text \<open>
  The first two lines, character by character: the ASCII characters of the NFKD
  decomposition of a code point. An ASCII character is its own decomposition; a letter
  with a diacritic gives its base letter, a spacing diacritic and the no-break space give
  a space, the superscript digits and ordinal indicators their digit or letter, the
  vulgar fractions their two digits (the fraction slash between them is not ASCII); every
  other code point below 256 has no ASCII character in its decomposition.
\<close>

definition nfkd_ascii :: "char \<Rightarrow> string" where
  "nfkd_ascii c =
     (let n = (of_char c :: nat) in
      if n < 128 then [c]
      else if n = 160 \<or> n = 168 \<or> n = 175 \<or> n = 180 \<or> n = 184 then '' ''
      else if n = 170 then ''a''
      else if n = 178 then ''2''
      else if n = 179 then ''3''
      else if n = 185 then ''1''
      else if n = 186 then ''o''
      else if n = 188 then ''14''
      else if n = 189 then ''12''
      else if n = 190 then ''34''
      else if 192 \<le> n \<and> n \<le> 197 then ''A''
      else if n = 199 then ''C''
      else if 200 \<le> n \<and> n \<le> 203 then ''E''
      else if 204 \<le> n \<and> n \<le> 207 then ''I''
      else if n = 209 then ''N''
      else if 210 \<le> n \<and> n \<le> 214 then ''O''
      else if 217 \<le> n \<and> n \<le> 220 then ''U''
      else if n = 221 then ''Y''
      else if 224 \<le> n \<and> n \<le> 229 then ''a''
      else if n = 231 then ''c''
      else if 232 \<le> n \<and> n \<le> 235 then ''e''
      else if 236 \<le> n \<and> n \<le> 239 then ''i''
      else if n = 241 then ''n''
      else if 242 \<le> n \<and> n \<le> 246 then ''o''
      else if 249 \<le> n \<and> n \<le> 252 then ''u''
      else if n = 253 \<or> n = 255 then ''y''
      else [])"

definition ascii_ignore :: "string \<Rightarrow> string" where
  "ascii_ignore s = concat (map nfkd_ascii s)"

definition replace_sep :: "string \<Rightarrow> string" where
  "replace_sep s = map (\<lambda>c. if c = CHR ''/'' then CHR '' '' else c) s"

definition filename_char :: "char \<Rightarrow> bool" where
  "filename_char c =
     (let n = (of_char c :: nat) in
        (65 \<le> n \<and> n \<le> 90) \<or> (97 \<le> n \<and> n \<le> 122) \<or> (48 \<le> n \<and> n \<le> 57)
        \<or> c = CHR ''_'' \<or> c = CHR ''.'' \<or> c = CHR ''-'')"

definition secure_filename :: "string \<Rightarrow> string" where
  "secure_filename filename =
     strip_chars {CHR ''.'', CHR ''_''}
       (filter filename_char (join_with ''_'' (split_ws (replace_sep (ascii_ignore filename)))))"

subsection \<open>Paths (\<^verbatim>\<open>pathlib\<close>, absolute POSIX paths)\<close>

text \<open>A path is kept as its string; \<open>path_parts\<close> are pathlib's parts without the root.\<close>

definition path_parts :: "string \<Rightarrow> string list" where
  "path_parts p = filter (\<lambda>s. s \<noteq> [] \<and> s \<noteq> ''.'') (split_on CHR ''/'' p)"

definition path_str :: "string list \<Rightarrow> string" where
  "path_str ps = CHR ''/'' # join_with ''/'' ps"

definition is_absolute :: "string \<Rightarrow> bool" where
  "is_absolute p = (case p of [] \<Rightarrow> False | c # _ \<Rightarrow> c = CHR ''/'')"

text \<open>\<^verbatim>\<open>str(d / f)\<close> for an absolute \<open>d\<close>: an absolute \<open>f\<close> replaces \<open>d\<close>.\<close>

definition path_join :: "string \<Rightarrow> string \<Rightarrow> string" where
  "path_join d f =
     (if is_absolute f then path_str (path_parts f) else path_str (path_parts d @ path_parts f))"

text \<open>\<^verbatim>\<open>p.name\<close> and \<^verbatim>\<open>p.parent\<close>\<close>

definition path_name :: "string \<Rightarrow> string" where
  "path_name p = (case path_parts p of [] \<Rightarrow> [] | ps \<Rightarrow> last ps)"

definition path_parent :: "string \<Rightarrow> string" where
  "path_parent p = path_str (butlast (path_parts p))"

text \<open>\<^verbatim>\<open>str(p.resolve())\<close> without symbolic links: \<^verbatim>\<open>..\<close> drops the part before it.\<close>

fun collapse_dotdot :: "string list \<Rightarrow> string list \<Rightarrow> string list" where
  "collapse_dotdot acc [] = rev acc"
| "collapse_dotdot acc (s # ss) =
     (if s = ''..'' then collapse_dotdot (tl acc) ss else collapse_dotdot (s # acc) ss)"

definition resolve :: "string \<Rightarrow> string" where
  "resolve p = path_str (collapse_dotdot [] (path_parts p))"

definition STORAGE_DIR :: string where
  "STORAGE_DIR = ''/app/storage''"

definition METADATA_FILE :: string where
  "METADATA_FILE = path_join STORAGE_DIR ''metadata.json''"

definition MAX_CONTENT_LENGTH :: int where
  "MAX_CONTENT_LENGTH = 1000 * 1024 * 1024"

text \<open>\<^verbatim>\<open>is_within_directory\<close> of \<^verbatim>\<open>umdrive.py\<close>: a bare string prefix test.\<close>

definition is_within_directory :: "string \<Rightarrow> string \<Rightarrow> bool" where
  "is_within_directory child parent = prefix (resolve parent) (resolve child)"

text \<open>\<^verbatim>\<open>is_within_directory\<close> of \<^verbatim>\<open>umDrive_Teste.py\<close>: equal, or below with a separator.\<close>

definition is_within_directory_Teste :: "string \<Rightarrow> string \<Rightarrow> bool" where
  "is_within_directory_Teste child parent =
     (let parent_real = resolve parent; child_real = resolve child
      in child_real = parent_real \<or> prefix (parent_real @ ''/'') child_real)"

subsection \<open>JSON values and Python's \<^verbatim>\<open>json\<close> module\<close>

text \<open>
  JSON values as Python holds them after \<^verbatim>\<open>json.loads\<close>: a \<^verbatim>\<open>dict\<close> is an
  association list in insertion order with distinct keys, an \<^verbatim>\<open>int\<close> is unbounded.

  A \<^verbatim>\<open>str\<close> inside a value is the list of its code points, which an escape in the
  text can take up to U+10FFFF, beyond the characters of the text itself; \<open>ustr\<close> reads
  a string of the text as such a list. A \<^verbatim>\<open>str\<close> may hold lone surrogates; what the
  parser never builds is a high surrogate followed by a low one, since it joins the two.

  A \<^verbatim>\<open>float\<close> is the number that its literal denotes, a sign and a decimal
  \<open>m \<times> 10\<^sup>e\<close> whose \<open>m\<close> does not end in 0 (zero is \<open>0 \<times> 10\<^sup>0\<close> and keeps its sign),
  or one of the three values that have no literal in JSON proper and that Python reads
  and writes as \<^verbatim>\<open>NaN\<close>, \<^verbatim>\<open>Infinity\<close> and \<^verbatim>\<open>-Infinity\<close>. The rounding of a literal to
  the nearest binary64 number is not part of the model: it agrees with Python on every
  literal whose number a binary64 holds as its shortest \<^verbatim>\<open>repr\<close>, such as
  \<^verbatim>\<open>1.5\<close>, \<^verbatim>\<open>0.1\<close> or \<^verbatim>\<open>1e3\<close>, and keeps every digit of a longer literal where
  Python keeps the nearest binary64.
\<close>

type_synonym ustring = "nat list"

definition ustr :: "string \<Rightarrow> ustring" where
  "ustr s = map of_char s"

definition high_surrogate :: "nat \<Rightarrow> bool" where
  "high_surrogate n = (0xD800 \<le> n \<and> n \<le> 0xDBFF)"

definition low_surrogate :: "nat \<Rightarrow> bool" where
  "low_surrogate n = (0xDC00 \<le> n \<and> n \<le> 0xDFFF)"

fun wf_ustring :: "ustring \<Rightarrow> bool" where
  "wf_ustring [] = True"
| "wf_ustring [c] = (c < 0x110000)"
| "wf_ustring (c # d # cs) =
     (c < 0x110000 \<and> (if high_surrogate c then \<not> low_surrogate d else True) \<and> wf_ustring (d # cs))"

datatype pyfloat = Decimal bool nat int | Infinity bool | NaN

datatype json =
    JNull
  | JBool bool
  | JInt int
  | JFloat pyfloat
  | JStr ustring
  | JArr "json list"
  | JObj "(ustring \<times> json) list"

fun wf_float :: "pyfloat \<Rightarrow> bool" where
  "wf_float (Decimal s m e) = (if m = 0 then e = 0 else m mod 10 \<noteq> 0)"
| "wf_float _ = True"

fun wf_json :: "json \<Rightarrow> bool" where
  "wf_json (JArr xs) = list_all wf_json xs"
| "wf_json (JObj kvs) =
     (distinct (map fst kvs) \<and> list_all (\<lambda>kv. wf_ustring (fst kv) \<and> wf_json (snd kv)) kvs)"
| "wf_json (JFloat f) = wf_float f"
| "wf_json (JStr s) = wf_ustring s"
| "wf_json _ = True"

text \<open>\<^verbatim>\<open>isinstance(data, dict)\<close>\<close>

fun is_dict :: "json \<Rightarrow> bool" where
  "is_dict (JObj _) = True"
| "is_dict _ = False"

definition dquote :: char where "dquote = CHR 0x22"
definition backslash :: char where "backslash = CHR 0x5C"
definition newline :: char where "newline = CHR 0x0A"

subsubsection \<open>\<^verbatim>\<open>json.dumps(obj, indent=2)\<close>\<close>

definition digit_char :: "nat \<Rightarrow> char" where
  "digit_char d = char_of (48 + d)"

fun digits_of :: "nat \<Rightarrow> string" where
  "digits_of n = (if n < 10 then [digit_char n] else digits_of (n div 10) @ [digit_char (n mod 10)])"

declare digits_of.simps [simp del]

definition encode_int :: "int \<Rightarrow> string" where
  "encode_int i = (if i < 0 then CHR ''-'' # digits_of (nat (- i)) else digits_of (nat i))"

text \<open>
  \<^verbatim>\<open>float.__repr__\<close> on the digits \<open>ds\<close> of \<open>m\<close>, with the decimal point after the
  first \<open>decpt\<close> of them: exponent notation when \<open>decpt\<close> is above 16 or below -3, with
  a sign and at least two digits in the exponent; otherwise positional notation, padded
  with zeros up to the point and with \<^verbatim>\<open>.0\<close> when there is no fraction.
\<close>

definition pad2 :: "string \<Rightarrow> string" where
  "pad2 s = (if length s < 2 then CHR ''0'' # s else s)"

definition float_repr :: "nat \<Rightarrow> int \<Rightarrow> string" where
  "float_repr m e =
     (let ds = digits_of m; n = int (length ds); decpt = n + e in
      if decpt < - 3 \<or> 16 < decpt then
        hd ds # (if tl ds = [] then [] else CHR ''.'' # tl ds)
          @ CHR ''e'' # (if decpt - 1 < 0 then CHR ''-'' else CHR ''+'')
          # pad2 (digits_of (nat \<bar>decpt - 1\<bar>))
      else if decpt \<le> 0 then ''0.'' @ replicate (nat (- decpt)) CHR ''0'' @ ds
      else if n \<le> decpt then ds @ replicate (nat (decpt - n)) CHR ''0'' @ ''.0''
      else take (nat decpt) ds @ CHR ''.'' # drop (nat decpt) ds)"

text \<open>The encoder's \<^verbatim>\<open>floatstr\<close> (\<^verbatim>\<open>allow_nan\<close> is on by default).\<close>

fun encode_float :: "pyfloat \<Rightarrow> string" where
  "encode_float NaN = ''NaN''"
| "encode_float (Infinity s) = (if s then ''-Infinity'' else ''Infinity'')"
| "encode_float (Decimal s m e) = (if s then CHR ''-'' # float_repr m e else float_repr m e)"

definition hex_char :: "nat \<Rightarrow> char" where
  "hex_char d = (if d < 10 then char_of (48 + d) else char_of (87 + d))"

text \<open>
  \<^verbatim>\<open>ensure_ascii\<close>: everything outside space..tilde, the quote and the backslash are
  escaped; a code point is written with four lower-case hex digits, as a surrogate pair
  when it is above U+FFFF.
\<close>

definition hex4_of :: "nat \<Rightarrow> string" where
  "hex4_of n =
     [hex_char (n div 4096), hex_char (n div 256 mod 16), hex_char (n div 16 mod 16),
      hex_char (n mod 16)]"

definition escape_char :: "nat \<Rightarrow> string" where
  "escape_char n =
     (if n = 0x22 then [backslash, dquote]
      else if n = 0x5C then [backslash, backslash]
      else if n = 10 then [backslash, CHR ''n'']
      else if n = 13 then [backslash, CHR ''r'']
      else if n = 9 then [backslash, CHR ''t'']
      else if n = 8 then [backslash, CHR ''b'']
      else if n = 12 then [backslash, CHR ''f'']
      else if 32 \<le> n \<and> n \<le> 126 then [char_of n]
      else if n < 0x10000 then backslash # CHR ''u'' # hex4_of n
      else backslash # CHR ''u'' # hex4_of (0xD800 + (n - 0x10000) div 1024)
             @ backslash # CHR ''u'' # hex4_of (0xDC00 + (n - 0x10000) mod 1024))"

definition encode_string :: "ustring \<Rightarrow> string" where
  "encode_string s = dquote # concat (map escape_char s) @ [dquote]"

text \<open>A line break followed by the indentation of nesting level \<open>l\<close>.\<close>

definition nl :: "nat \<Rightarrow> string" where
  "nl l = newline # replicate (2 * l) CHR '' ''"

text \<open>
  \<open>encode_elems\<close> and \<open>encode_members\<close> write the items of a non-empty list or dict
  at level \<open>Suc l\<close> and then the closing bracket at level \<open>l\<close>.
\<close>

fun encode :: "nat \<Rightarrow> json \<Rightarrow> string"
  and encode_elems :: "nat \<Rightarrow> json list \<Rightarrow> string"
  and encode_members :: "nat \<Rightarrow> (ustring \<times> json) list \<Rightarrow> string" where
  "encode l JNull = ''null''"
| "encode l (JBool b) = (if b then ''true'' else ''false'')"
| "encode l (JInt i) = encode_int i"
| "encode l (JFloat f) = encode_float f"
| "encode l (JStr s) = encode_string s"
| "encode l (JArr []) = ''[]''"
| "encode l (JArr (x # xs)) = CHR ''['' # nl (Suc l) @ encode_elems l (x # xs)"
| "encode l (JObj []) = ''{}''"
| "encode l (JObj (kv # kvs)) = CHR ''{'' # nl (Suc l) @ encode_members l (kv # kvs)"
| "encode_elems l [] = nl l @ '']''"
| "encode_elems l (x # xs) =
     encode (Suc l) x @ (if xs = [] then [] else CHR '','' # nl (Suc l)) @ encode_elems l xs"
| "encode_members l [] = nl l @ ''}''"
| "encode_members l (kv # kvs) =
     encode_string (fst kv) @ '': '' @ encode (Suc l) (snd kv)
       @ (if kvs = [] then [] else CHR '','' # nl (Suc l)) @ encode_members l kvs"

definition json_dumps :: "json \<Rightarrow> string" where
  "json_dumps v = encode 0 v"

subsubsection \<open>\<^verbatim>\<open>json.loads\<close>\<close>

definition json_ws :: "char \<Rightarrow> bool" where
  "json_ws c = (c = CHR '' '' \<or> c = CHR 0x09 \<or> c = CHR 0x0A \<or> c = CHR 0x0D)"

definition skip_ws :: "string \<Rightarrow> string" where
  "skip_ws s = dropWhile json_ws s"

definition is_digit :: "char \<Rightarrow> bool" where
  "is_digit c = (let n = (of_char c :: nat) in 48 \<le> n \<and> n \<le> 57)"

definition digit_val :: "char \<Rightarrow> nat" where
  "digit_val c = of_char c - 48"

definition nat_of_digits :: "string \<Rightarrow> nat" where
  "nat_of_digits ds = foldl (\<lambda>a c. 10 * a + digit_val c) 0 ds"

definition hex_val :: "char \<Rightarrow> nat option" where
  "hex_val c =
     (let n = (of_char c :: nat) in
      if 48 \<le> n \<and> n \<le> 57 then Some (n - 48)
      else if 97 \<le> n \<and> n \<le> 102 then Some (n - 87)
      else if 65 \<le> n \<and> n \<le> 70 then Some (n - 55)
      else None)"

definition hex4 :: "char \<Rightarrow> char \<Rightarrow> char \<Rightarrow> char \<Rightarrow> nat option" where
  "hex4 a b c d =
     (case (hex_val a, hex_val b, hex_val c, hex_val d) of
        (Some x, Some y, Some z, Some w) \<Rightarrow> Some (((x * 16 + y) * 16 + z) * 16 + w)
      | _ \<Rightarrow> None)"

text \<open>The one-character escapes of the decoder's \<^verbatim>\<open>BACKSLASH\<close> table.\<close>

definition unescape :: "char \<Rightarrow> char option" where
  "unescape e =
     (if e = dquote then Some dquote
      else if e = backslash then Some backslash
      else if e = CHR ''/'' then Some CHR ''/''
      else if e = CHR ''b'' then Some (CHR 0x08)
      else if e = CHR ''f'' then Some (CHR 0x0C)
      else if e = CHR ''n'' then Some (CHR 0x0A)
      else if e = CHR ''r'' then Some (CHR 0x0D)
      else if e = CHR ''t'' then Some (CHR 0x09)
      else None)"

definition consc :: "nat \<Rightarrow> (ustring \<times> string) option \<Rightarrow> (ustring \<times> string) option" where
  "consc c r = (case r of None \<Rightarrow> None | Some (s, rest) \<Rightarrow> Some (c # s, rest))"

text \<open>
  After the escape of a high surrogate: the low surrogate that the next six characters
  give, when they are the escape of one.
\<close>

definition low_escape :: "string \<Rightarrow> nat option" where
  "low_escape s =
     (case s of
        b # u # g1 # g2 # g3 # g4 # rest \<Rightarrow>
          if b = backslash \<and> u = CHR ''u'' then
            (case hex4 g1 g2 g3 g4 of
               None \<Rightarrow> None
             | Some m \<Rightarrow> if low_surrogate m then Some m else None)
          else None
      | _ \<Rightarrow> None)"

text \<open>
  \<^verbatim>\<open>scanstring\<close> (strict) after the opening quote: the string up to the closing
  quote and the text after it. A surrogate pair of escapes is joined into one code point.
\<close>

fun parse_string_body :: "string \<Rightarrow> (ustring \<times> string) option" where
  "parse_string_body [] = None"
| "parse_string_body (c # cs) =
     (if c = dquote then Some ([], cs)
      else if c = backslash then
        (case cs of
           [] \<Rightarrow> None
         | e # cs1 \<Rightarrow>
             if e = CHR ''u'' then
               (case cs1 of
                  h1 # h2 # h3 # h4 # cs2 \<Rightarrow>
                    (case hex4 h1 h2 h3 h4 of
                       None \<Rightarrow> None
                     | Some n \<Rightarrow>
                         (case (if high_surrogate n then low_escape cs2 else None) of
                            None \<Rightarrow> consc n (parse_string_body cs2)
                          | Some m \<Rightarrow>
                              consc (0x10000 + (n - 0xD800) * 1024 + (m - 0xDC00))
                                (parse_string_body (drop 6 cs2))))
                | _ \<Rightarrow> None)
             else
               (case unescape e of
                  None \<Rightarrow> None
                | Some x \<Rightarrow> consc (of_char x) (parse_string_body cs1)))
      else if (of_char c :: nat) < 32 then None
      else consc (of_char c) (parse_string_body cs))"

text \<open>
  \<^verbatim>\<open>NUMBER_RE = (-?(?:0|[1-9]\d*))(\.\d+)?([eE][-+]?\d+)?\<close>, group by group: the
  digits of the integer part; the digits of the fraction, none when no fraction follows;
  the exponent, if one follows. Each comes with the text after it.
\<close>

definition parse_int_part :: "string \<Rightarrow> (string \<times> string) option" where
  "parse_int_part s =
     (case s of
        [] \<Rightarrow> None
      | c # cs \<Rightarrow>
          if c = CHR ''0'' then Some ([c], cs)
          else if is_digit c then Some (c # takeWhile is_digit cs, dropWhile is_digit cs)
          else None)"

definition parse_frac :: "string \<Rightarrow> string \<times> string" where
  "parse_frac s =
     (case s of
        c # d # cs \<Rightarrow>
          if c = CHR ''.'' \<and> is_digit d then (d # takeWhile is_digit cs, dropWhile is_digit cs)
          else ([], s)
      | _ \<Rightarrow> ([], s))"

definition parse_exp :: "string \<Rightarrow> (int \<times> string) option" where
  "parse_exp s =
     (case s of
        [] \<Rightarrow> None
      | c # cs \<Rightarrow>
          if c = CHR ''e'' \<or> c = CHR ''E'' then
            (case cs of
               [] \<Rightarrow> None
             | d # ds \<Rightarrow>
                 if d = CHR ''+'' \<or> d = CHR ''-'' then
                   (case ds of
                      [] \<Rightarrow> None
                    | d' # _ \<Rightarrow>
                        if is_digit d' then
                          Some ((if d = CHR ''-'' then - 1 else 1)
                                  * int (nat_of_digits (takeWhile is_digit ds)),
                                dropWhile is_digit ds)
                        else None)
                 else if is_digit d then
                   Some (int (nat_of_digits (takeWhile is_digit cs)), dropWhile is_digit cs)
                 else None)
          else None)"

text \<open>
  \<^verbatim>\<open>float(integer + frac + exp)\<close>: the number \<open>ds \<times> 10\<^sup>e\<close> for the digits \<open>ds\<close> of
  integer part and fraction, with the zeros at the end of \<open>ds\<close> moved into the exponent.
\<close>

fun strip_zeros :: "nat \<Rightarrow> int \<Rightarrow> nat \<times> int" where
  "strip_zeros m e =
     (if m = 0 then (0, 0)
      else if m mod 10 = 0 then strip_zeros (m div 10) (e + 1)
      else (m, e))"

declare strip_zeros.simps [simp del]

definition float_of_literal :: "bool \<Rightarrow> string \<Rightarrow> int \<Rightarrow> pyfloat" where
  "float_of_literal neg ds e = (case strip_zeros (nat_of_digits ds) e of (m, e') \<Rightarrow> Decimal neg m e')"

text \<open>
  The match of \<^verbatim>\<open>NUMBER_RE\<close> in \<^verbatim>\<open>_scan_once\<close>: an \<^verbatim>\<open>int\<close> when neither fraction
  nor exponent follows the integer part, a \<^verbatim>\<open>float\<close> otherwise.
\<close>

definition parse_number :: "string \<Rightarrow> (json \<times> string) option" where
  "parse_number s =
     (case s of
        [] \<Rightarrow> None
      | c # cs \<Rightarrow>
          (case (if c = CHR ''-'' then parse_int_part cs else parse_int_part s) of
             None \<Rightarrow> None
           | Some (ip, r1) \<Rightarrow>
               (let neg = (c = CHR ''-''); (fp, r2) = parse_frac r1 in
                case parse_exp r2 of
                  None \<Rightarrow>
                    if fp = [] then
                      Some (JInt (if neg then - int (nat_of_digits ip) else int (nat_of_digits ip)), r1)
                    else Some (JFloat (float_of_literal neg (ip @ fp) (- int (length fp))), r2)
                | Some (ex, r3) \<Rightarrow>
                    Some (JFloat (float_of_literal neg (ip @ fp) (ex - int (length fp))), r3))))"

text \<open>
  The last branches of \<^verbatim>\<open>_scan_once\<close>: a number, or else one of the three constants
  \<^verbatim>\<open>NaN\<close>, \<^verbatim>\<open>Infinity\<close>, \<^verbatim>\<open>-Infinity\<close>.
\<close>

definition parse_numeric :: "string \<Rightarrow> (json \<times> string) option" where
  "parse_numeric s =
     (case parse_number s of
        Some r \<Rightarrow> Some r
      | None \<Rightarrow>
          if prefix ''NaN'' s then Some (JFloat NaN, drop 3 s)
          else if prefix ''Infinity'' s then Some (JFloat (Infinity False), drop 8 s)
          else if prefix ''-Infinity'' s then Some (JFloat (Infinity True), drop 9 s)
          else None)"

text \<open>\<^verbatim>\<open>dict(pairs)\<close>: a repeated key keeps its first position and takes the last value.\<close>

definition dict_of :: "(ustring \<times> json) list \<Rightarrow> (ustring \<times> json) list" where
  "dict_of pairs = foldl (\<lambda>d kv. AList.update (fst kv) (snd kv) d) [] pairs"

text \<open>
  The scanner, with the nesting bounded by a counter that every recursive call
  decreases; \<open>json_loads\<close> starts it above the length of the text. \<open>parse_value\<close>
  starts at the first character of a value, \<open>parse_elems\<close> at the first element of a
  non-empty array, \<open>parse_members\<close> at the quote of the first key of a non-empty object.
\<close>

fun parse_value :: "nat \<Rightarrow> string \<Rightarrow> (json \<times> string) option"
  and parse_elems :: "nat \<Rightarrow> string \<Rightarrow> (json list \<times> string) option"
  and parse_members :: "nat \<Rightarrow> string \<Rightarrow> ((ustring \<times> json) list \<times> string) option" where
  "parse_value 0 s = None"
| "parse_value (Suc n) s =
     (case s of
        [] \<Rightarrow> None
      | c # cs \<Rightarrow>
          if c = dquote then
            (case parse_string_body cs of None \<Rightarrow> None | Some (x, rest) \<Rightarrow> Some (JStr x, rest))
          else if c = CHR ''{'' then
            (case skip_ws cs of
               [] \<Rightarrow> None
             | d # ds \<Rightarrow>
                 if d = CHR ''}'' then Some (JObj [], ds)
                 else (case parse_members n (d # ds) of
                         None \<Rightarrow> None
                       | Some (kvs, rest) \<Rightarrow> Some (JObj (dict_of kvs), rest)))
          else if c = CHR ''['' then
            (case skip_ws cs of
               [] \<Rightarrow> None
             | d # ds \<Rightarrow>
                 if d = CHR '']'' then Some (JArr [], ds)
                 else (case parse_elems n (d # ds) of
                         None \<Rightarrow> None
                       | Some (xs, rest) \<Rightarrow> Some (JArr xs, rest)))
          else if prefix ''null'' s then Some (JNull, drop 4 s)
          else if prefix ''true'' s then Some (JBool True, drop 4 s)
          else if prefix ''false'' s then Some (JBool False, drop 5 s)
          else parse_numeric s)"
| "parse_elems 0 s = None"
| "parse_elems (Suc n) s =
     (case parse_value (Suc n) s of
        None \<Rightarrow> None
      | Some (x, rest) \<Rightarrow>
          (case skip_ws rest of
             [] \<Rightarrow> None
           | d # ds \<Rightarrow>
               if d = CHR '']'' then Some ([x], ds)
               else if d = CHR '','' then
                 (case parse_elems n (skip_ws ds) of
                    None \<Rightarrow> None
                  | Some (xs, rest') \<Rightarrow> Some (x # xs, rest'))
               else None))"
| "parse_members 0 s = None"
| "parse_members (Suc n) s =
     (case s of
        [] \<Rightarrow> None
      | q # s1 \<Rightarrow>
          if q \<noteq> dquote then None
          else
            (case parse_string_body s1 of
               None \<Rightarrow> None
             | Some (k, s2) \<Rightarrow>
                 (case skip_ws s2 of
                    [] \<Rightarrow> None
                  | c # s3 \<Rightarrow>
                      if c \<noteq> CHR '':'' then None
                      else
                        (case parse_value (Suc n) (skip_ws s3) of
                           None \<Rightarrow> None
                         | Some (v, s4) \<Rightarrow>
                             (case skip_ws s4 of
                                [] \<Rightarrow> None
                              | d # s5 \<Rightarrow>
                                  if d = CHR ''}'' then Some ([(k, v)], s5)
                                  else if d = CHR '','' then
                                    (case parse_members n (skip_ws s5) of
                                       None \<Rightarrow> None
                                     | Some (kvs, s6) \<Rightarrow> Some ((k, v) # kvs, s6))
                                  else None)))))"

definition json_loads :: "string \<Rightarrow> json option" where
  "json_loads s =
     (case parse_value (Suc (length s)) (skip_ws s) of
        None \<Rightarrow> None
      | Some (v, rest) \<Rightarrow> if skip_ws rest = [] then Some v else None)"

subsubsection \<open>\<^verbatim>\<open>dict\<close> methods on a loaded document\<close>

datatype py_exception =
    IsADirectoryError
  | FileNotFoundError
  | NotADirectoryError
  | AttributeError
  | TypeError

text \<open>
  The key of these calls is a file name, a string of the text.

  \<^verbatim>\<open>md.get(k, {})\<close>: only a dict has \<^verbatim>\<open>get\<close>.
\<close>

fun dict_get :: "json \<Rightarrow> string \<Rightarrow> py_exception + json" where
  "dict_get (JObj kvs) k = Inr (case map_of kvs (ustr k) of None \<Rightarrow> JObj [] | Some v \<Rightarrow> v)"
| "dict_get _ k = Inl AttributeError"

text \<open>\<^verbatim>\<open>md.setdefault(k, {})\<close>\<close>

fun dict_setdefault :: "json \<Rightarrow> string \<Rightarrow> py_exception + json" where
  "dict_setdefault (JObj kvs) k =
     Inr (JObj (if ustr k \<in> fst ` set kvs then kvs else kvs @ [(ustr k, JObj [])]))"
| "dict_setdefault _ k = Inl AttributeError"

text \<open>\<^verbatim>\<open>md.pop(k, None)\<close>: a list has a one-argument \<^verbatim>\<open>pop\<close>, scalars have none.\<close>

fun dict_pop :: "json \<Rightarrow> string \<Rightarrow> py_exception + json" where
  "dict_pop (JObj kvs) k = Inr (JObj (AList.delete (ustr k) kvs))"
| "dict_pop (JArr _) k = Inl TypeError"
| "dict_pop _ k = Inl AttributeError"

text \<open>\<^verbatim>\<open>md[k] = data\<close>: nothing but a dict takes a string key.\<close>

fun dict_setitem :: "json \<Rightarrow> string \<Rightarrow> json \<Rightarrow> py_exception + json" where
  "dict_setitem (JObj kvs) k v = Inr (JObj (AList.update (ustr k) v kvs))"
| "dict_setitem _ k v = Inl TypeError"

subsection \<open>The file system\<close>

text \<open>
  The whole file system: absolute path to node, in the order the system enumerates
  entries. A regular file has its contents and its modification time in whole seconds.
\<close>

datatype node = File bytes int | Dir

type_synonym filesystem = "(string \<times> node) list"

text \<open>The system call finds a node by the resolved path.\<close>

definition node_at :: "filesystem \<Rightarrow> string \<Rightarrow> node option" where
  "node_at fs p = map_of fs (resolve p)"

text \<open>\<^verbatim>\<open>path.exists()\<close>, \<^verbatim>\<open>path.is_file()\<close>\<close>

definition exists :: "filesystem \<Rightarrow> string \<Rightarrow> bool" where
  "exists fs p = (node_at fs p \<noteq> None)"

definition is_file :: "filesystem \<Rightarrow> string \<Rightarrow> bool" where
  "is_file fs p = (case node_at fs p of Some (File _ _) \<Rightarrow> True | _ \<Rightarrow> False)"

text \<open>\<^verbatim>\<open>open(p, "wb").write(data)\<close>, as \<^verbatim>\<open>f.save\<close> and \<^verbatim>\<open>write_text\<close> do.\<close>

definition write_file :: "filesystem \<Rightarrow> string \<Rightarrow> bytes \<Rightarrow> int \<Rightarrow> py_exception + filesystem" where
  "write_file fs p data now =
     (case node_at fs p of
        Some Dir \<Rightarrow> Inl IsADirectoryError
      | _ \<Rightarrow>
          (case node_at fs (path_parent (resolve p)) of
             None \<Rightarrow> Inl FileNotFoundError
           | Some (File _ _) \<Rightarrow> Inl NotADirectoryError
           | Some Dir \<Rightarrow> Inr (AList.update (resolve p) (File data now) fs)))"

text \<open>\<^verbatim>\<open>p.read_text()\<close>\<close>

definition read_text :: "filesystem \<Rightarrow> string \<Rightarrow> py_exception + string" where
  "read_text fs p =
     (case node_at fs p of
        None \<Rightarrow> Inl FileNotFoundError
      | Some Dir \<Rightarrow> Inl IsADirectoryError
      | Some (File data _) \<Rightarrow> Inr data)"

text \<open>\<^verbatim>\<open>p.unlink()\<close> (Linux: a directory is refused)\<close>

definition unlink :: "filesystem \<Rightarrow> string \<Rightarrow> py_exception + filesystem" where
  "unlink fs p =
     (case node_at fs p of
        None \<Rightarrow> Inl FileNotFoundError
      | Some Dir \<Rightarrow> Inl IsADirectoryError
      | Some (File _ _) \<Rightarrow> Inr (AList.delete (resolve p) fs))"

text \<open>\<^verbatim>\<open>d.iterdir()\<close>: the entries directly below \<open>d\<close>, in enumeration order.\<close>

definition is_child :: "string \<Rightarrow> string \<Rightarrow> bool" where
  "is_child d p = (resolve p = p \<and> path_parts p \<noteq> [] \<and> path_parent p = resolve d)"

definition iterdir :: "filesystem \<Rightarrow> string \<Rightarrow> py_exception + string list" where
  "iterdir fs d =
     (case node_at fs d of
        None \<Rightarrow> Inl FileNotFoundError
      | Some (File _ _) \<Rightarrow> Inl NotADirectoryError
      | Some Dir \<Rightarrow> Inr (filter (is_child d) (map fst fs)))"

subsection \<open>The helpers of \<^verbatim>\<open>umdrive.py\<close>\<close>

text \<open>
  \<^verbatim>\<open>
  def load_metadata():
      try: return json.loads(METADATA_FILE.read_text(encoding='utf-8'))
      except Exception: return {}
  def save_metadata(md):
      METADATA_FILE.write_text(json.dumps(md, indent=2), encoding='utf-8')
  \<close>
\<close>

definition load_metadata :: "filesystem \<Rightarrow> json" where
  "load_metadata fs =
     (case read_text fs METADATA_FILE of
        Inl _ \<Rightarrow> JObj []
      | Inr s \<Rightarrow> (case json_loads s of None \<Rightarrow> JObj [] | Some md \<Rightarrow> md))"

definition save_metadata :: "json \<Rightarrow> int \<Rightarrow> filesystem \<Rightarrow> py_exception + filesystem" where
  "save_metadata md now fs = write_file fs METADATA_FILE (json_dumps md) now"

record file_info =
  fi_name :: string
  fi_size :: nat
  fi_mtime :: int
  fi_download_url :: string
  fi_metadata :: json

text \<open>
  \<^verbatim>\<open>file_info(path)\<close>; \<^verbatim>\<open>list_files\<close> passes regular files only, and the
  \<^verbatim>\<open>stat\<close> of a directory is outside the model.
\<close>

definition file_info :: "filesystem \<Rightarrow> string \<Rightarrow> py_exception + file_info" where
  "file_info fs path =
     (case node_at fs path of
        None \<Rightarrow> Inl FileNotFoundError
      | Some Dir \<Rightarrow> Inl IsADirectoryError
      | Some (File data t) \<Rightarrow>
          (case dict_get (load_metadata fs) (path_name path) of
             Inl e \<Rightarrow> Inl e
           | Inr m \<Rightarrow>
               Inr \<lparr>fi_name = path_name path, fi_size = length data, fi_mtime = t,
                    fi_download_url = ''/api/files/'' @ path_name path @ ''/download'',
                    fi_metadata = m\<rparr>))"

subsection \<open>The routes\<close>

text \<open>
  A route answers with a failure (the status codes 400, 404, 413, or 500 for an
  exception nobody catches) or a reply; a route that writes also returns the file
  system as it leaves it, whatever the answer. \<open>now\<close> is the clock at the request.
\<close>

datatype failure =
    NoFileSent
  | EmptyFilename
  | NotFound
  | InvalidPath
  | ExpectedObject
  | TooLarge
  | BadRequest
  | ServerError py_exception

datatype reply =
    Listing "file_info list"
  | Uploaded string
  | Attachment bytes
  | Deleted string
  | Record json
  | MetadataUpdated string

type_synonym response = "failure + reply"

text \<open>The list comprehension stops at the first exception.\<close>

fun collect :: "('a \<Rightarrow> py_exception + 'b) \<Rightarrow> 'a list \<Rightarrow> py_exception + 'b list" where
  "collect f [] = Inr []"
| "collect f (x # xs) =
     (case f x of
        Inl e \<Rightarrow> Inl e
      | Inr y \<Rightarrow> (case collect f xs of Inl e \<Rightarrow> Inl e | Inr ys \<Rightarrow> Inr (y # ys)))"

text \<open>
  \<^verbatim>\<open>
  files = [file_info(p) for p in STORAGE_DIR.iterdir()
           if p.is_file() and p.name != METADATA_FILE.name]
  return jsonify(sorted(files, key=lambda x: x['name'].lower()))
  \<close>
\<close>

definition list_files :: "filesystem \<Rightarrow> response" where
  "list_files fs =
     (case iterdir fs STORAGE_DIR of
        Inl e \<Rightarrow> Inl (ServerError e)
      | Inr ps \<Rightarrow>
          (case collect (file_info fs)
                  (filter (\<lambda>p. is_file fs p \<and> path_name p \<noteq> path_name METADATA_FILE) ps) of
             Inl e \<Rightarrow> Inl (ServerError e)
           | Inr files \<Rightarrow> Inr (Listing (sort_key (\<lambda>x. lower (fi_name x)) files))))"

text \<open>
  The upload request: the length of its body, which Flask checks against
  \<^verbatim>\<open>MAX_CONTENT_LENGTH\<close> when the form is read, and the part named \<^verbatim>\<open>file\<close>, if
  any, with its file name and contents.
\<close>

record upload_request =
  content_length :: int
  file_part :: "(string \<times> bytes) option"

definition upload_file :: "filesystem \<Rightarrow> int \<Rightarrow> upload_request \<Rightarrow> response \<times> filesystem" where
  "upload_file fs now req =
     (if MAX_CONTENT_LENGTH < content_length req then (Inl TooLarge, fs)
      else
        (case file_part req of
           None \<Rightarrow> (Inl NoFileSent, fs)
         | Some (fname, data) \<Rightarrow>
             if fname = [] then (Inl EmptyFilename, fs)
             else
               (let filename = secure_filename fname in
                case write_file fs (path_join STORAGE_DIR filename) data now of
                  Inl e \<Rightarrow> (Inl (ServerError e), fs)
                | Inr fs1 \<Rightarrow>
                    (case dict_setdefault (load_metadata fs1) filename of
                       Inl e \<Rightarrow> (Inl (ServerError e), fs1)
                     | Inr md \<Rightarrow>
                         (case save_metadata md now fs1 of
                            Inl e \<Rightarrow> (Inl (ServerError e), fs1)
                          | Inr fs2 \<Rightarrow> (Inr (Uploaded filename), fs2))))))"

text \<open>
  \<^verbatim>\<open>send_from_directory\<close>: werkzeug's \<^verbatim>\<open>safe_join\<close> normalises the name and
  refuses an absolute one and one that starts by going up; what it finds must be a
  regular file.
\<close>

fun collapse_rel :: "string list \<Rightarrow> string list \<Rightarrow> string list" where
  "collapse_rel acc [] = rev acc"
| "collapse_rel acc (s # ss) =
     (if s = ''..'' \<and> acc \<noteq> [] \<and> hd acc \<noteq> ''..'' then collapse_rel (tl acc) ss
      else collapse_rel (s # acc) ss)"

definition normpath :: "string \<Rightarrow> string" where
  "normpath p =
     (if is_absolute p then resolve p
      else (case collapse_rel [] (path_parts p) of [] \<Rightarrow> ''.'' | ps \<Rightarrow> join_with ''/'' ps))"

definition posix_join :: "string \<Rightarrow> string \<Rightarrow> string" where
  "posix_join d f =
     (if is_absolute f then f
      else if d = [] \<or> last d = CHR ''/'' then d @ f
      else d @ ''/'' @ f)"

definition safe_join :: "string \<Rightarrow> string \<Rightarrow> string option" where
  "safe_join directory filename =
     (let f = (if filename \<noteq> [] then normpath filename else filename)
      in if is_absolute f \<or> f = ''..'' \<or> prefix ''../'' f then None
         else Some (posix_join directory f))"

definition send_from_directory :: "filesystem \<Rightarrow> string \<Rightarrow> string \<Rightarrow> response" where
  "send_from_directory fs directory name =
     (case safe_join directory name of
        None \<Rightarrow> Inl NotFound
      | Some p \<Rightarrow>
          (case node_at fs p of
             Some (File data _) \<Rightarrow> Inr (Attachment data)
           | _ \<Rightarrow> Inl NotFound))"

definition download_file :: "filesystem \<Rightarrow> string \<Rightarrow> response" where
  "download_file fs filename =
     (let safe_name = secure_filename filename;
          path = path_join STORAGE_DIR safe_name
      in if \<not> exists fs path then Inl NotFound
         else if \<not> is_within_directory path STORAGE_DIR then Inl InvalidPath
         else send_from_directory fs STORAGE_DIR safe_name)"

definition delete_file :: "filesystem \<Rightarrow> int \<Rightarrow> string \<Rightarrow> response \<times> filesystem" where
  "delete_file fs now filename =
     (let safe_name = secure_filename filename;
          path = path_join STORAGE_DIR safe_name
      in if \<not> exists fs path then (Inl NotFound, fs)
         else
           (case unlink fs path of
              Inl e \<Rightarrow> (Inl (ServerError e), fs)
            | Inr fs1 \<Rightarrow>
                (case dict_pop (load_metadata fs1) safe_name of
                   Inl e \<Rightarrow> (Inl (ServerError e), fs1)
                 | Inr md \<Rightarrow>
                     (case save_metadata md now fs1 of
                        Inl e \<Rightarrow> (Inl (ServerError e), fs1)
                      | Inr fs2 \<Rightarrow> (Inr (Deleted safe_name), fs2)))))"

text \<open>The route \<^verbatim>\<open>metadata\<close>, method GET.\<close>

definition metadata_get :: "filesystem \<Rightarrow> string \<Rightarrow> response" where
  "metadata_get fs filename =
     (let safe_name = secure_filename filename;
          md = load_metadata fs
      in case dict_get md safe_name of
           Inl e \<Rightarrow> Inl (ServerError e)
         | Inr r \<Rightarrow> Inr (Record r))"

text \<open>
  The route \<^verbatim>\<open>metadata\<close>, method POST, in the two accesses it makes to the document:
  it reads it on entry and, when the body is an object, writes it back with the entry
  set. \<^verbatim>\<open>request.get_json()\<close> answers 400 by itself for a body that is not JSON.
\<close>

definition metadata_post_write ::
  "json \<Rightarrow> filesystem \<Rightarrow> int \<Rightarrow> string \<Rightarrow> bytes \<Rightarrow> response \<times> filesystem" where
  "metadata_post_write md fs now filename body =
     (let safe_name = secure_filename filename in
      case json_loads body of
        None \<Rightarrow> (Inl BadRequest, fs)
      | Some data \<Rightarrow>
          if \<not> is_dict data then (Inl ExpectedObject, fs)
          else
            (case dict_setitem md safe_name data of
               Inl e \<Rightarrow> (Inl (ServerError e), fs)
             | Inr md' \<Rightarrow>
                 (case save_metadata md' now fs of
                    Inl e \<Rightarrow> (Inl (ServerError e), fs)
                  | Inr fs' \<Rightarrow> (Inr (MetadataUpdated safe_name), fs'))))"

definition metadata_post :: "filesystem \<Rightarrow> int \<Rightarrow> string \<Rightarrow> bytes \<Rightarrow> response \<times> filesystem" where
  "metadata_post fs now filename body = metadata_post_write (load_metadata fs) fs now filename body"

subsection \<open>Two overlapping metadata writes\<close>

text \<open>
  The server runs requests in threads and the route takes no lock, so between the read
  and the write of one POST another POST may read or write. A request is the pair of
  name and body; a schedule names, step by step, which of the two requests moves. A
  request's first step reads the document, its second writes it back, further steps do
  nothing.
\<close>

datatype progress = Waiting | Loaded json | Finished response

fun post_step :: "int \<Rightarrow> string \<times> bytes \<Rightarrow> progress \<times> filesystem \<Rightarrow> progress \<times> filesystem" where
  "post_step now (name, body) (Waiting, fs) = (Loaded (load_metadata fs), fs)"
| "post_step now (name, body) (Loaded md, fs) =
     (case metadata_post_write md fs now name body of (r, fs') \<Rightarrow> (Finished r, fs'))"
| "post_step now (name, body) (Finished r, fs) = (Finished r, fs)"

fun run_schedule ::
  "int \<Rightarrow> string \<times> bytes \<Rightarrow> string \<times> bytes \<Rightarrow> bool list
     \<Rightarrow> progress \<times> progress \<times> filesystem \<Rightarrow> progress \<times> progress \<times> filesystem" where
  "run_schedule now ra rb [] st = st"
| "run_schedule now ra rb (first # sched) (pa, pb, fs) =
     (if first then (case post_step now ra (pa, fs) of
                       (pa', fs') \<Rightarrow> run_schedule now ra rb sched (pa', pb, fs'))
      else (case post_step now rb (pb, fs) of
              (pb', fs') \<Rightarrow> run_schedule now ra rb sched (pa, pb', fs')))"

subsection \<open>States for the examples\<close>

text \<open>
  The store as the module leaves it at start-up, \<^verbatim>\<open>STORAGE_DIR.mkdir(exist_ok=True)\<close>
  and an empty document written to \<^verbatim>\<open>metadata.json\<close>; and a machine that also has
  a password file and a sibling directory of the storage root.
\<close>

definition fs_fresh :: filesystem where
  "fs_fresh =
     [(''/'', Dir), (''/app'', Dir), (''/app/storage'', Dir),
      (''/app/storage/metadata.json'', File ''{}'' 0)]"

definition fs_machine :: filesystem where
  "fs_machine =
     [(''/'', Dir), (''/etc'', Dir), (''/etc/passwd'', File ''root:x:0:0'' 0),
      (''/app'', Dir), (''/app/storage2'', Dir), (''/app/storage2/secret'', File ''s3cret'' 0),
      (''/app/storage'', Dir), (''/app/storage/metadata.json'', File ''{}'' 0),
      (''/app/storage/Notes.txt'', File ''abc'' 3), (''/app/storage/archive'', Dir),
      (''/app/storage/b.txt'', File ''hello'' 2)]"

text \<open>
  The store is in order when the storage root is a directory and the document is a file
  that loads as an object, or is missing or unreadable (which loads as the empty object).
\<close>

definition store_ok :: "filesystem \<Rightarrow> bool" where
  "store_ok fs =
     (node_at fs STORAGE_DIR = Some Dir \<and> node_at fs METADATA_FILE \<noteq> Some Dir
      \<and> is_dict (load_metadata fs))"

text \<open>The upload of five bytes under the name of the metadata document.\<close>

definition req_reserved :: upload_request where
  "req_reserved = \<lparr>content_length = 5, file_part = Some (''metadata.json'', ''hello'')\<rparr>"

text \<open>
  The upload of a JSON list under that name, and the two stores it leaves behind: the
  fresh one and the machine's, with the list as their document.
\<close>

definition req_list :: upload_request where
  "req_list = \<lparr>content_length = 6, file_part = Some (''metadata.json'', ''[1, 2]'')\<rparr>"

definition fs_fresh_list :: filesystem where
  "fs_fresh_list = snd (upload_file fs_fresh 5 req_list)"

definition fs_machine_list :: filesystem where
  "fs_machine_list = snd (upload_file fs_machine 5 req_list)"

subsection \<open>Notions used in the statements and the proofs\<close>

text \<open>A single path segment: not empty, no separator, and neither of the dot names.\<close>

definition segment :: "string \<Rightarrow> bool" where
  "segment s = (s \<noteq> [] \<and> CHR ''/'' \<notin> set s \<and> s \<noteq> ''.'' \<and> s \<noteq> ''..'')"

text \<open>What pathlib keeps as a part of a path.\<close>

definition good_part :: "string \<Rightarrow> bool" where
  "good_part s = (s \<noteq> [] \<and> s \<noteq> ''.'' \<and> CHR ''/'' \<notin> set s)"

text \<open>The paths \<^verbatim>\<open>list_files\<close> keeps, and the entry it builds for one of them.\<close>

definition listed_paths :: "filesystem \<Rightarrow> string list" where
  "listed_paths fs =
     filter (\<lambda>p. is_file fs p \<and> path_name p \<noteq> path_name METADATA_FILE)
       (filter (is_child STORAGE_DIR) (map fst fs))"

definition info_of :: "filesystem \<Rightarrow> (ustring \<times> json) list \<Rightarrow> string \<Rightarrow> file_info" where
  "info_of fs kvs p =
     \<lparr>fi_name = path_name p,
      fi_size = (case map_of fs p of Some (File data t) \<Rightarrow> length data | _ \<Rightarrow> 0),
      fi_mtime = (case map_of fs p of Some (File data t) \<Rightarrow> t | _ \<Rightarrow> 0),
      fi_download_url = ''/api/files/'' @ path_name p @ ''/download'',
      fi_metadata = (case map_of kvs (ustr (path_name p)) of None \<Rightarrow> JObj [] | Some r \<Rightarrow> r)\<rparr>"

text \<open>What may follow a value in serialized text: nothing, a comma or a line break.\<close>

definition delim :: "string \<Rightarrow> bool" where
  "delim rest = (case rest of [] \<Rightarrow> True | c # _ \<Rightarrow> c = CHR '','' \<or> c = newline)"

text \<open>The first character of a serialized value.\<close>

definition value_start :: "char \<Rightarrow> bool" where
  "value_start c =
     (c = CHR ''n'' \<or> c = CHR ''t'' \<or> c = CHR ''f'' \<or> c = CHR ''-'' \<or> is_digit c
      \<or> c = CHR ''N'' \<or> c = CHR ''I'' \<or> c = dquote \<or> c = CHR ''['' \<or> c = CHR ''{'')"

text \<open>Two metadata requests for different names, and their overlapping run on a fresh store.\<close>

definition req_a :: "string \<times> bytes" where
  "req_a = (''a.txt'', json_dumps (JObj [(ustr ''k'', JInt 1)]))"

definition req_b :: "string \<times> bytes" where
  "req_b = (''b.txt'', json_dumps (JObj [(ustr ''k'', JInt 2)]))"

definition overlapped :: "progress \<times> progress \<times> filesystem" where
  "overlapped = run_schedule 7 req_a req_b [True, False, True, False] (Waiting, Waiting, fs_fresh)"

section \<open>Properties\<close>

subsection \<open>Sanitized names and the paths built from them\<close>

lemma split_on_nonempty: "split_on c s \<noteq> []"
  by (induction s) (auto split: list.splits)

lemma split_on_no_sep: "c \<notin> set s \<Longrightarrow> split_on c s = [s]"
  by (induction s) auto

lemma split_on_append: "split_on c (a @ c # b) = split_on c a @ split_on c b"
proof (induction a)
  case Nil
  then show ?case by simp
next
  case (Cons x a)
  then show ?case
    using split_on_nonempty [of c a] by (cases "split_on c a") auto
qed

lemma strip_chars_subset: "x \<in> set (strip_chars cs s) \<Longrightarrow> x \<in> set s"
  unfolding strip_chars_def by (auto dest!: set_dropWhileD)

lemma strip_chars_hd: "strip_chars cs s \<noteq> [] \<Longrightarrow> hd (strip_chars cs s) \<notin> cs"
proof -
  let ?d = "dropWhile (\<lambda>c. c \<in> cs) s"
  assume ne: "strip_chars cs s \<noteq> []"
  have "strip_chars cs s = []" if "?d = []"
    unfolding strip_chars_def that by simp
  with ne have dne: "?d \<noteq> []" by blast
  then have h: "hd ?d \<notin> cs" using hd_dropWhile [of "\<lambda>c. c \<in> cs" s] by simp
  obtain x xs where d: "?d = x # xs" using dne by (cases ?d) auto
  with h have x: "x \<notin> cs" by simp
  have "rev ?d = rev xs @ [x]" using d by simp
  then have "dropWhile (\<lambda>c. c \<in> cs) (rev ?d) = dropWhile (\<lambda>c. c \<in> cs) (rev xs) @ [x]"
    using x by (simp add: dropWhile_append)
  then have "strip_chars cs s = x # rev (dropWhile (\<lambda>c. c \<in> cs) (rev xs))"
    by (simp add: strip_chars_def)
  then show ?thesis using x by simp
qed

lemma secure_filename_chars: "c \<in> set (secure_filename f) \<Longrightarrow> filename_char c"
  unfolding secure_filename_def by (auto dest!: strip_chars_subset)

lemma secure_filename_no_slash: "CHR ''/'' \<notin> set (secure_filename f)"
proof
  assume "CHR ''/'' \<in> set (secure_filename f)"
  then have "filename_char CHR ''/''" by (rule secure_filename_chars)
  then show False by (simp add: filename_char_def)
qed

lemma secure_filename_hd: "secure_filename f \<noteq> [] \<Longrightarrow> hd (secure_filename f) \<noteq> CHR ''.''"
  using strip_chars_hd [of "{CHR ''.'', CHR ''_''}"] unfolding secure_filename_def by fastforce

lemma secure_filename_segment: "secure_filename f = [] \<or> segment (secure_filename f)"
  using secure_filename_no_slash [of f] secure_filename_hd [of f]
  by (auto simp: segment_def)

lemma path_parts_storage: "path_parts STORAGE_DIR = [''app'', ''storage'']"
  by code_simp

lemma path_str_storage: "path_str [''app'', ''storage''] = STORAGE_DIR"
  by code_simp

lemma path_str_child: "path_str [''app'', ''storage'', s] = STORAGE_DIR @ CHR ''/'' # s"
  by (simp add: path_str_def STORAGE_DIR_def)

lemma path_parts_segment: "segment s \<Longrightarrow> path_parts s = [s]"
  by (simp add: path_parts_def segment_def split_on_no_sep)

lemma segment_not_absolute: "segment s \<Longrightarrow> \<not> is_absolute s"
  by (cases s) (auto simp: segment_def is_absolute_def)

lemma path_join_segment: "segment s \<Longrightarrow> path_join STORAGE_DIR s = STORAGE_DIR @ CHR ''/'' # s"
  by (simp add: path_join_def segment_not_absolute path_parts_storage path_parts_segment
      path_str_child)

lemma path_join_empty: "path_join STORAGE_DIR [] = STORAGE_DIR"
  by code_simp

lemma path_parts_child:
  assumes "segment s"
  shows "path_parts (STORAGE_DIR @ CHR ''/'' # s) = [''app'', ''storage'', s]"
proof -
  have "split_on CHR ''/'' (STORAGE_DIR @ CHR ''/'' # s)
          = split_on CHR ''/'' STORAGE_DIR @ split_on CHR ''/'' s"
    by (rule split_on_append)
  moreover have "split_on CHR ''/'' STORAGE_DIR = [[], ''app'', ''storage'']" by code_simp
  moreover have "split_on CHR ''/'' s = [s]" using assms by (simp add: segment_def split_on_no_sep)
  ultimately show ?thesis using assms by (simp add: path_parts_def segment_def)
qed

lemma resolve_child: "segment s \<Longrightarrow> resolve (STORAGE_DIR @ CHR ''/'' # s) = STORAGE_DIR @ CHR ''/'' # s"
  by (simp add: resolve_def path_parts_child path_str_child segment_def)

lemma resolve_storage: "resolve STORAGE_DIR = STORAGE_DIR"
  by code_simp

lemma path_parent_child: "segment s \<Longrightarrow> path_parent (STORAGE_DIR @ CHR ''/'' # s) = STORAGE_DIR"
  by (simp add: path_parent_def path_parts_child path_str_storage)

lemma path_name_child: "segment s \<Longrightarrow> path_name (STORAGE_DIR @ CHR ''/'' # s) = s"
  by (simp add: path_name_def path_parts_child)

lemma within_child: "segment s \<Longrightarrow> is_within_directory (STORAGE_DIR @ CHR ''/'' # s) STORAGE_DIR"
  by (simp add: is_within_directory_def resolve_child resolve_storage)

lemma normpath_segment: "segment s \<Longrightarrow> normpath s = s"
  by (simp add: normpath_def segment_not_absolute path_parts_segment segment_def)

lemma safe_join_segment:
  assumes "segment s"
  shows "safe_join STORAGE_DIR s = Some (STORAGE_DIR @ CHR ''/'' # s)"
proof -
  have p: "\<not> prefix ''../'' s" using assms by (auto simp: segment_def prefix_def)
  have l: "last STORAGE_DIR \<noteq> CHR ''/''" "STORAGE_DIR \<noteq> []" by code_simp+
  have ne: "s \<noteq> []" "s \<noteq> ''..''" using assms by (auto simp: segment_def)
  show ?thesis
    using p l ne by (simp add: safe_join_def normpath_segment [OF assms] segment_not_absolute [OF assms] posix_join_def)
qed

lemma safe_join_empty: "safe_join STORAGE_DIR [] = Some (STORAGE_DIR @ ''/'')"
  by code_simp

lemma resolve_storage_slash: "resolve (STORAGE_DIR @ ''/'') = STORAGE_DIR"
  by code_simp

lemma write_file_frame:
  "write_file fs p d now = Inr fs' \<Longrightarrow>
     map_of fs' q = (if q = resolve p then Some (File d now) else map_of fs q)"
  by (auto simp: write_file_def update_conv' split: option.splits node.splits)

lemma unlink_frame:
  "unlink fs p = Inr fs' \<Longrightarrow> map_of fs' q = (if q = resolve p then None else map_of fs q)"
  by (auto simp: unlink_def delete_conv' split: option.splits node.splits)

lemma resolve_metadata_file: "resolve METADATA_FILE = METADATA_FILE"
  by code_simp

lemma metadata_file_eq: "METADATA_FILE = STORAGE_DIR @ ''/metadata.json''"
  by code_simp

lemma resolve_path_join: "resolve (path_join STORAGE_DIR (secure_filename raw)) = path_join STORAGE_DIR (secure_filename raw)"
  using secure_filename_segment [of raw]
  by (auto simp: path_join_empty resolve_storage path_join_segment resolve_child)

lemma upload_file_frame:
  assumes "p \<noteq> path_join STORAGE_DIR (secure_filename raw)" "p \<noteq> METADATA_FILE"
  shows "map_of (snd (upload_file fs now \<lparr>content_length = n, file_part = Some (raw, data)\<rparr>)) p = map_of fs p"
proof -
  have w: "map_of fs1 p = map_of fs p"
    if "write_file fs (path_join STORAGE_DIR (secure_filename raw)) data now = Inr fs1" for fs1
    using write_file_frame [OF that, of p] assms(1) by (simp add: resolve_path_join)
  have m: "map_of fs2 p = map_of fs1 p" if "save_metadata md now fs1 = Inr fs2" for md fs1 fs2
    using write_file_frame [of fs1 METADATA_FILE "json_dumps md" now fs2 p] that assms(2)
    by (simp add: save_metadata_def resolve_metadata_file)
  show ?thesis
    by (auto simp: upload_file_def Let_def w m split: sum.splits)
qed

lemma download_file_reads_path:
  assumes "map_of fs (path_join STORAGE_DIR (secure_filename raw))
         = map_of fs' (path_join STORAGE_DIR (secure_filename raw))"
  shows "download_file fs raw = download_file fs' raw"
proof (cases "secure_filename raw = []")
  case True
  with assms have "map_of fs STORAGE_DIR = map_of fs' STORAGE_DIR" by (simp add: path_join_empty)
  then show ?thesis
    by (simp add: download_file_def Let_def True path_join_empty exists_def node_at_def
        resolve_storage send_from_directory_def safe_join_empty resolve_storage_slash)
next
  case False
  then have s: "segment (secure_filename raw)" using secure_filename_segment [of raw] by simp
  with assms have "map_of fs (STORAGE_DIR @ CHR ''/'' # secure_filename raw)
      = map_of fs' (STORAGE_DIR @ CHR ''/'' # secure_filename raw)" by (simp add: path_join_segment)
  then show ?thesis
    by (simp add: download_file_def Let_def path_join_segment [OF s] exists_def node_at_def
        resolve_child [OF s] send_from_directory_def safe_join_segment [OF s])
qed

text \<open>
  Claim C1. Whatever name the client sends, the sanitized name has no separator and is
  neither \<^verbatim>\<open>.\<close> nor \<^verbatim>\<open>..\<close>, so the path the routes use is the storage root
  joined with that one segment (the root itself when the sanitized name is empty). An
  upload changes the file system at that path and at the metadata document, which lies in
  the storage root too, and nowhere else; the answer of a download depends on the file
  system at that path only.
\<close>

theorem upload_download_confined:
  "CHR ''/'' \<notin> set (secure_filename raw) \<and> secure_filename raw \<noteq> ''..'' \<and> secure_filename raw \<noteq> ''.''
   \<and> path_join STORAGE_DIR (secure_filename raw)
       = (if secure_filename raw = [] then STORAGE_DIR else STORAGE_DIR @ ''/'' @ secure_filename raw)
   \<and> METADATA_FILE = STORAGE_DIR @ ''/metadata.json''
   \<and> (\<forall>fs now n data p.
         p \<noteq> path_join STORAGE_DIR (secure_filename raw) \<longrightarrow> p \<noteq> METADATA_FILE \<longrightarrow>
         map_of (snd (upload_file fs now \<lparr>content_length = n, file_part = Some (raw, data)\<rparr>)) p
           = map_of fs p)
   \<and> (\<forall>fs fs'.
         map_of fs (path_join STORAGE_DIR (secure_filename raw))
           = map_of fs' (path_join STORAGE_DIR (secure_filename raw)) \<longrightarrow>
         download_file fs raw = download_file fs' raw)"
proof (intro conjI allI impI)
  show "CHR ''/'' \<notin> set (secure_filename raw)" by (rule secure_filename_no_slash)
  show "secure_filename raw \<noteq> ''..''" "secure_filename raw \<noteq> ''.''"
    using secure_filename_segment [of raw] by (auto simp: segment_def)
  show "path_join STORAGE_DIR (secure_filename raw)
       = (if secure_filename raw = [] then STORAGE_DIR else STORAGE_DIR @ ''/'' @ secure_filename raw)"
    using secure_filename_segment [of raw] by (auto simp: path_join_empty path_join_segment)
  show "METADATA_FILE = STORAGE_DIR @ ''/metadata.json''" by (rule metadata_file_eq)
next
  fix fs :: filesystem and now n data p
  assume "p \<noteq> path_join STORAGE_DIR (secure_filename raw)" "p \<noteq> METADATA_FILE"
  then show "map_of (snd (upload_file fs now \<lparr>content_length = n, file_part = Some (raw, data)\<rparr>)) p
           = map_of fs p" by (rule upload_file_frame)
next
  fix fs fs' :: filesystem
  assume "map_of fs (path_join STORAGE_DIR (secure_filename raw))
           = map_of fs' (path_join STORAGE_DIR (secure_filename raw))"
  then show "download_file fs raw = download_file fs' raw" by (rule download_file_reads_path)
qed


theorem upload_download_confined_witness:
  "secure_filename ''../../etc/passwd'' = ''etc_passwd''
   \<and> path_join STORAGE_DIR (secure_filename ''../../etc/passwd'') = ''/app/storage/etc_passwd''
   \<and> map_of (snd (upload_file fs_machine 9
          \<lparr>content_length = 4, file_part = Some (''../../etc/passwd'', ''evil'')\<rparr>)) ''/etc/passwd''
       = Some (File ''root:x:0:0'' 0)
   \<and> download_file fs_machine ''../../etc/passwd'' = download_file fs_fresh ''../../etc/passwd''"
proof -
  note t = upload_download_confined [of "''../../etc/passwd''"]
  note up = t [THEN conjunct2, THEN conjunct2, THEN conjunct2, THEN conjunct2, THEN conjunct2,
      THEN conjunct1, rule_format]
  note down = t [THEN conjunct2, THEN conjunct2, THEN conjunct2, THEN conjunct2, THEN conjunct2,
      THEN conjunct2, rule_format]
  have s: "secure_filename ''../../etc/passwd'' = ''etc_passwd''" by code_simp
  have j: "path_join STORAGE_DIR (secure_filename ''../../etc/passwd'') = ''/app/storage/etc_passwd''"
    by code_simp
  have p1: "''/etc/passwd'' \<noteq> path_join STORAGE_DIR (secure_filename ''../../etc/passwd'')"
    by code_simp
  have p2: "''/etc/passwd'' \<noteq> METADATA_FILE" by code_simp
  have m1: "map_of fs_machine (path_join STORAGE_DIR (secure_filename ''../../etc/passwd''))
      = map_of fs_fresh (path_join STORAGE_DIR (secure_filename ''../../etc/passwd''))"
    by code_simp
  have m2: "map_of fs_machine ''/etc/passwd'' = Some (File ''root:x:0:0'' 0)" by code_simp
  have u: "map_of (snd (upload_file fs_machine 9
          \<lparr>content_length = 4, file_part = Some (''../../etc/passwd'', ''evil'')\<rparr>)) ''/etc/passwd''
       = Some (File ''root:x:0:0'' 0)"
    using up [OF p1 p2, of fs_machine 9 4 "''evil''"] m2 by simp
  show ?thesis using s j u down [OF m1] by blast
qed


subsection \<open>The containment check\<close>

text \<open>
  Claim C2. The check is to hold only for the storage root itself and for what lies below
  it across a separator. The check of \<^verbatim>\<open>umdrive.py\<close> is a bare prefix test on the
  resolved strings: it accepts the sibling \<^verbatim>\<open>/app/storage2\<close> and a file in it,
  although the sibling is neither the root nor below it. The check of
  \<^verbatim>\<open>umDrive_Teste.py\<close> refuses the same path.
\<close>

theorem is_within_directory_accepts_sibling:
  "is_within_directory ''/app/storage2'' STORAGE_DIR
   \<and> is_within_directory ''/app/storage2/secret'' STORAGE_DIR
   \<and> resolve ''/app/storage2'' \<noteq> resolve STORAGE_DIR
   \<and> \<not> prefix (resolve STORAGE_DIR @ ''/'') (resolve ''/app/storage2'')
   \<and> \<not> is_within_directory_Teste ''/app/storage2'' STORAGE_DIR"
  by code_simp

subsection \<open>The name of the metadata document is not reserved\<close>

text \<open>
  Claim C3. An upload followed by a download of the same name is to return the uploaded
  bytes. Under the name \<^verbatim>\<open>metadata.json\<close> the upload is accepted, the route then
  rewrites the file it has just saved with the serialized document, and the download
  returns that document instead of the five bytes sent.
\<close>

theorem upload_metadata_json_not_returned:
  "upload_file fs_fresh 5 req_reserved
     = (Inr (Uploaded ''metadata.json''),
        [(''/'', Dir), (''/app'', Dir), (''/app/storage'', Dir),
         (''/app/storage/metadata.json'',
          File (json_dumps (JObj [(ustr ''metadata.json'', JObj [])])) 5)])
   \<and> download_file (snd (upload_file fs_fresh 5 req_reserved)) ''metadata.json''
     = Inr (Attachment (json_dumps (JObj [(ustr ''metadata.json'', JObj [])])))
   \<and> json_dumps (JObj [(ustr ''metadata.json'', JObj [])]) \<noteq> ''hello''"
  by code_simp

text \<open>
  Claim C4. After an upload and a delete of the same name, a download is to answer
  ``not found''. Under the name \<^verbatim>\<open>metadata.json\<close> the delete removes the file and
  then saves the document again, which creates the file anew: the download that follows
  succeeds.
\<close>

theorem delete_metadata_json_still_found:
  "fst (delete_file (snd (upload_file fs_fresh 5 req_reserved)) 6 ''metadata.json'')
     = Inr (Deleted ''metadata.json'')
   \<and> download_file
        (snd (delete_file (snd (upload_file fs_fresh 5 req_reserved)) 6 ''metadata.json''))
        ''metadata.json''
     = Inr (Attachment ''{}'')"
  by code_simp

text \<open>
  Claim C10. An upload under a name that has a record is to leave the record as it is.
  Under the name \<^verbatim>\<open>metadata.json\<close> the upload replaces the document that holds the
  record, and the record read back afterwards is empty.
\<close>

theorem reupload_metadata_json_clears_record:
  "metadata_get
     (snd (metadata_post fs_fresh 4 ''metadata.json'' (json_dumps (JObj [(ustr ''tag'', JStr (ustr ''final''))]))))
     ''metadata.json''
     = Inr (Record (JObj [(ustr ''tag'', JStr (ustr ''final''))]))
   \<and> fst (upload_file
        (snd (metadata_post fs_fresh 4 ''metadata.json'' (json_dumps (JObj [(ustr ''tag'', JStr (ustr ''final''))]))))
        5 req_reserved)
     = Inr (Uploaded ''metadata.json'')
   \<and> metadata_get
        (snd (upload_file
          (snd (metadata_post fs_fresh 4 ''metadata.json'' (json_dumps (JObj [(ustr ''tag'', JStr (ustr ''final''))]))))
          5 req_reserved))
        ''metadata.json''
     = Inr (Record (JObj []))"
  by code_simp

text \<open>
  Claim C5. A record set for a name is to be read back as it was set, for every name and
  every object. The upload of a JSON list under the name \<^verbatim>\<open>metadata.json\<close> is
  answered with an uncaught exception, but only after the list has been saved as the
  document. From then on the document loads as a list, which \<^verbatim>\<open>load_metadata\<close>
  returns as it is: the metadata POST of the empty object for any name fails on the item
  assignment, and the metadata GET fails on \<^verbatim>\<open>get\<close>; neither returns the object.
\<close>

theorem set_record_fails_on_list_document:
  "upload_file fs_fresh 5 req_list
     = (Inl (ServerError AttributeError),
        [(''/'', Dir), (''/app'', Dir), (''/app/storage'', Dir),
         (''/app/storage/metadata.json'', File ''[1, 2]'' 5)])
   \<and> load_metadata fs_fresh_list = JArr [JInt 1, JInt 2]
   \<and> json_loads ''{}'' = Some (JObj [])
   \<and> metadata_post fs_fresh_list 6 ''a.txt'' ''{}'' = (Inl (ServerError TypeError), fs_fresh_list)
   \<and> metadata_get fs_fresh_list ''a.txt'' = Inl (ServerError AttributeError)"
  by code_simp

text \<open>
  Claim C7. The listing is to succeed in every state of the storage directory, with the
  empty object for a file that has no record. After the same upload on a machine whose
  storage root holds two regular files, the listing fails on \<^verbatim>\<open>get\<close> in
  \<^verbatim>\<open>file_info\<close> and returns no entry, where before the upload it returned both.
\<close>

theorem list_files_fails_on_list_document:
  "list_files fs_machine
     = Inr (Listing
         [\<lparr>fi_name = ''b.txt'', fi_size = 5, fi_mtime = 2,
            fi_download_url = ''/api/files/b.txt/download'', fi_metadata = JObj []\<rparr>,
          \<lparr>fi_name = ''Notes.txt'', fi_size = 3, fi_mtime = 3,
            fi_download_url = ''/api/files/Notes.txt/download'', fi_metadata = JObj []\<rparr>])
   \<and> fst (upload_file fs_machine 5 req_list) = Inl (ServerError AttributeError)
   \<and> is_file fs_machine_list (STORAGE_DIR @ ''/b.txt'')
   \<and> is_file fs_machine_list (STORAGE_DIR @ ''/Notes.txt'')
   \<and> load_metadata fs_machine_list = JArr [JInt 1, JInt 2]
   \<and> list_files fs_machine_list = Inl (ServerError AttributeError)"
  by code_simp

subsection \<open>Names that are empty after sanitization\<close>

text \<open>
  Claim C8. A name that is empty once sanitized is to be refused as an invalid name
  before the file system or the document is touched. The upload route tests the raw name
  for emptiness, before it sanitizes: the raw name \<^verbatim>\<open>..\<close> passes the test,
  sanitizes to the empty name, and the route goes on to open the storage directory itself
  for writing, which ends in an uncaught exception. The metadata route has no test at
  all and stores a record under the empty name.
\<close>

theorem upload_dotdot_not_rejected_as_empty:
  "secure_filename ''..'' = [] \<and> secure_filename ''////'' = []
   \<and> upload_file fs_fresh 5 \<lparr>content_length = 3, file_part = Some (''..'', ''abc'')\<rparr>
       = (Inl (ServerError IsADirectoryError), fs_fresh)
   \<and> upload_file fs_fresh 5 \<lparr>content_length = 3, file_part = Some ([], ''abc'')\<rparr>
       = (Inl EmptyFilename, fs_fresh)
   \<and> fst (metadata_post fs_fresh 5 ''..'' ''{}'') = Inr (MetadataUpdated [])
   \<and> load_metadata (snd (metadata_post fs_fresh 5 ''..'' ''{}'')) = JObj [([], JObj [])]"
  by code_simp

subsection \<open>Metadata that is not an object\<close>

text \<open>
  Claim C6. For every name, every state of the file system and every body that is a JSON
  value other than an object (an array, a string, an integer, a float, one of the three
  literals or of the three float constants), the metadata POST answers with the ``expected
  an object'' failure and leaves the file system, and with it the stored document, exactly
  as it was.
\<close>

theorem non_object_metadata_rejected:
  "json_loads body = Some v \<Longrightarrow> \<not> is_dict v \<Longrightarrow>
     metadata_post fs now name body = (Inl ExpectedObject, fs)"
  by (simp add: metadata_post_def metadata_post_write_def)

theorem non_object_metadata_rejected_witness:
  "json_loads ''[1.5, 2e3, NaN]''
     = Some (JArr [JFloat (Decimal False 15 (- 1)), JFloat (Decimal False 2 3), JFloat NaN])
   \<and> \<not> is_dict (JArr [JFloat (Decimal False 15 (- 1)), JFloat (Decimal False 2 3), JFloat NaN])
   \<and> metadata_post fs_machine 9 ''b.txt'' ''[1.5, 2e3, NaN]'' = (Inl ExpectedObject, fs_machine)
   \<and> metadata_post fs_fresh_list 9 ''b.txt'' ''[1.5, 2e3, NaN]'' = (Inl ExpectedObject, fs_fresh_list)"
proof -
  let ?v = "JArr [JFloat (Decimal False 15 (- 1)), JFloat (Decimal False 2 3), JFloat NaN]"
  have l: "json_loads ''[1.5, 2e3, NaN]'' = Some ?v" by code_simp
  have d: "\<not> is_dict ?v" by simp
  show ?thesis
    using l d non_object_metadata_rejected [OF l d, of fs_machine 9 "''b.txt''"]
      non_object_metadata_rejected [OF l d, of fs_fresh_list 9 "''b.txt''"]
    by simp
qed

subsection \<open>The listing\<close>

lemma split_on_no_sep_inside: "s \<in> set (split_on c x) \<Longrightarrow> c \<notin> set s"
  by (induction x arbitrary: s) (auto split: if_splits list.splits)

lemma path_parts_good: "s \<in> set (path_parts p) \<Longrightarrow> good_part s"
  by (auto simp: path_parts_def good_part_def dest: split_on_no_sep_inside)

lemma split_on_join:
  "\<forall>s\<in>set qs. CHR ''/'' \<notin> set s \<Longrightarrow> qs \<noteq> [] \<Longrightarrow> split_on CHR ''/'' (join_with ''/'' qs) = qs"
proof (induction "''/''" qs rule: join_with.induct)
  case 1
  then show ?case by simp
next
  case (2 x)
  then show ?case by (simp add: split_on_no_sep)
next
  case (3 x y ys)
  have "split_on CHR ''/'' (x @ CHR ''/'' # join_with ''/'' (y # ys))
      = split_on CHR ''/'' x @ split_on CHR ''/'' (join_with ''/'' (y # ys))"
    by (rule split_on_append)
  with 3 show ?case by (simp add: split_on_no_sep)
qed

lemma path_parts_path_str: "\<forall>s\<in>set qs. good_part s \<Longrightarrow> path_parts (path_str qs) = qs"
proof (cases "qs = []")
  case True
  then show ?thesis by (simp add: path_parts_def path_str_def)
next
  case False
  assume g: "\<forall>s\<in>set qs. good_part s"
  then have "split_on CHR ''/'' (join_with ''/'' qs) = qs"
    using False by (intro split_on_join) (auto simp: good_part_def)
  then have "path_parts (path_str qs) = filter (\<lambda>s. s \<noteq> [] \<and> s \<noteq> ''.'') qs"
    by (simp add: path_parts_def path_str_def)
  also have "\<dots> = qs" using g by (induction qs) (auto simp: good_part_def)
  finally show ?thesis .
qed

lemma collapse_dotdot_set:
  "s \<in> set (collapse_dotdot acc ps) \<Longrightarrow> s \<in> set acc \<or> (s \<in> set ps \<and> s \<noteq> ''..'')"
proof (induction acc ps rule: collapse_dotdot.induct)
  case (1 acc)
  then show ?case by simp
next
  case (2 acc s' ss)
  then show ?case by (cases acc) (auto split: if_splits)
qed

lemma is_child_storage:
  "is_child STORAGE_DIR p \<longleftrightarrow> (\<exists>n. segment n \<and> p = STORAGE_DIR @ CHR ''/'' # n)"
proof
  assume c: "is_child STORAGE_DIR p"
  let ?ps = "path_parts p"
  let ?qs = "collapse_dotdot [] ?ps"
  from c have c': "resolve p = p" "?ps \<noteq> []" "path_parent p = STORAGE_DIR"
    by (auto simp: is_child_def resolve_storage)
  then have r: "path_str ?qs = p" and ne: "?ps \<noteq> []"
    and par: "path_str (butlast ?ps) = STORAGE_DIR"
    by (auto simp: resolve_def path_parent_def)
  have q: "\<forall>s\<in>set ?qs. good_part s \<and> s \<noteq> ''..''"
    using collapse_dotdot_set [of _ "[]" ?ps] path_parts_good by fastforce
  then have "path_parts (path_str ?qs) = ?qs" by (intro path_parts_path_str) simp
  with r have eq: "?qs = ?ps" by simp
  with q have g: "\<forall>s\<in>set ?ps. good_part s \<and> s \<noteq> ''..''" by simp
  then have "\<forall>s\<in>set (butlast ?ps). good_part s" by (auto dest: in_set_butlastD)
  then have "path_parts (path_str (butlast ?ps)) = butlast ?ps" by (rule path_parts_path_str)
  with par have b: "butlast ?ps = [''app'', ''storage'']" by (simp add: path_parts_storage)
  from ne have "?ps = butlast ?ps @ [last ?ps]" by simp
  with b have ps: "?ps = [''app'', ''storage'', last ?ps]" by simp
  have l: "last ?ps \<in> set ?ps" using ne by simp
  then have seg: "segment (last ?ps)" using g by (auto simp: segment_def good_part_def)
  have "p = path_str ?ps" using r eq by simp
  also have "\<dots> = path_str [''app'', ''storage'', last ?ps]" using ps by simp
  also have "\<dots> = STORAGE_DIR @ CHR ''/'' # last ?ps" by (rule path_str_child)
  finally show "\<exists>n. segment n \<and> p = STORAGE_DIR @ CHR ''/'' # n" using seg by blast
next
  assume "\<exists>n. segment n \<and> p = STORAGE_DIR @ CHR ''/'' # n"
  then show "is_child STORAGE_DIR p"
    by (auto simp: is_child_def resolve_child path_parts_child path_parent_child resolve_storage)
qed

lemma collect_map: "\<forall>x\<in>set xs. f x = Inr (g x) \<Longrightarrow> collect f xs = Inr (map g xs)"
  by (induction xs) auto

lemma path_name_metadata_file: "path_name METADATA_FILE = ''metadata.json''"
  by code_simp

lemma is_file_child:
  "segment n \<Longrightarrow> is_file fs (STORAGE_DIR @ CHR ''/'' # n)
     \<longleftrightarrow> (\<exists>data t. map_of fs (STORAGE_DIR @ CHR ''/'' # n) = Some (File data t))"
  by (auto simp: is_file_def node_at_def resolve_child split: option.splits node.splits)

lemma listed_paths_iff:
  "p \<in> set (listed_paths fs) \<longleftrightarrow>
      (\<exists>n. p = STORAGE_DIR @ CHR ''/'' # n \<and> segment n \<and> n \<noteq> ''metadata.json''
           \<and> is_file fs (STORAGE_DIR @ CHR ''/'' # n))"
proof
  assume "p \<in> set (listed_paths fs)"
  then have a: "is_child STORAGE_DIR p" "is_file fs p" "path_name p \<noteq> ''metadata.json''"
    by (simp_all add: listed_paths_def path_name_metadata_file)
  from a(1) obtain n where n: "segment n" "p = STORAGE_DIR @ CHR ''/'' # n"
    unfolding is_child_storage by blast
  with a(3) have "n \<noteq> ''metadata.json''" by (simp add: path_name_child)
  with n a(2) show "\<exists>n. p = STORAGE_DIR @ CHR ''/'' # n \<and> segment n \<and> n \<noteq> ''metadata.json''
           \<and> is_file fs (STORAGE_DIR @ CHR ''/'' # n)" by blast
next
  assume "\<exists>n. p = STORAGE_DIR @ CHR ''/'' # n \<and> segment n \<and> n \<noteq> ''metadata.json''
           \<and> is_file fs (STORAGE_DIR @ CHR ''/'' # n)"
  then obtain n where n: "p = STORAGE_DIR @ CHR ''/'' # n" "segment n" "n \<noteq> ''metadata.json''"
      "is_file fs p" by blast
  from n(4) obtain data t where "map_of fs p = Some (File data t)"
    unfolding n(1) is_file_child [OF n(2)] by blast
  then have "(p, File data t) \<in> set fs" by (rule map_of_SomeD)
  then have k: "p \<in> set (map fst fs)" by force
  have c: "is_child STORAGE_DIR p" unfolding is_child_storage using n by blast
  have "path_name p = n" unfolding n(1) using n(2) by (rule path_name_child)
  with n(3) have "path_name p \<noteq> path_name METADATA_FILE" by (simp add: path_name_metadata_file)
  with k c n(4) show "p \<in> set (listed_paths fs)" by (simp add: listed_paths_def)
qed

lemma file_info_listed:
  assumes "load_metadata fs = JObj kvs" "p \<in> set (listed_paths fs)"
  shows "file_info fs p = Inr (info_of fs kvs p)"
proof -
  from assms(2) obtain n where n: "p = STORAGE_DIR @ CHR ''/'' # n" "segment n" "is_file fs p"
    unfolding listed_paths_iff by blast
  from n(3) obtain data t where d: "map_of fs p = Some (File data t)"
    unfolding n(1) is_file_child [OF n(2)] by blast
  have r: "resolve p = p" unfolding n(1) using n(2) by (rule resolve_child)
  show ?thesis
    by (simp add: file_info_def node_at_def r d assms(1) info_of_def)
qed

lemma list_files_eq:
  assumes "node_at fs STORAGE_DIR = Some Dir" and "load_metadata fs = JObj kvs"
  shows "list_files fs
     = Inr (Listing (sort_key (\<lambda>x. lower (fi_name x)) (map (info_of fs kvs) (listed_paths fs))))"
proof -
  have c: "collect (file_info fs) (listed_paths fs) = Inr (map (info_of fs kvs) (listed_paths fs))"
    by (rule collect_map) (simp add: file_info_listed [OF assms(2)])
  have e: "filter (\<lambda>p. is_file fs p \<and> path_name p \<noteq> path_name METADATA_FILE)
             (filter (is_child STORAGE_DIR) (map fst fs)) = listed_paths fs"
    by (simp only: listed_paths_def)
  show ?thesis
    unfolding list_files_def iterdir_def assms(1)
    by (simp only: option.case node.case sum.case e c)
qed

lemma info_of_listed:
  assumes "p \<in> set (listed_paths fs)"
  shows "\<exists>data t.
            map_of fs (STORAGE_DIR @ ''/'' @ fi_name (info_of fs kvs p)) = Some (File data t)
            \<and> fi_size (info_of fs kvs p) = length data \<and> fi_mtime (info_of fs kvs p) = t
            \<and> fi_download_url (info_of fs kvs p)
                = ''/api/files/'' @ fi_name (info_of fs kvs p) @ ''/download''
            \<and> fi_metadata (info_of fs kvs p)
                = (case map_of kvs (ustr (fi_name (info_of fs kvs p))) of None \<Rightarrow> JObj [] | Some r \<Rightarrow> r)"
proof -
  from assms obtain n where n: "p = STORAGE_DIR @ CHR ''/'' # n" "segment n" "is_file fs p"
    unfolding listed_paths_iff by blast
  from n(3) obtain data t where d: "map_of fs p = Some (File data t)"
    unfolding n(1) is_file_child [OF n(2)] by blast
  have pn: "path_name p = n" unfolding n(1) using n(2) by (rule path_name_child)
  have "map_of fs (STORAGE_DIR @ CHR ''/'' # n) = Some (File data t)" using d n(1) by simp
  then show ?thesis by (simp add: info_of_def pn d)
qed

lemma listed_names_distinct:
  assumes "distinct (map fst fs)"
  shows "distinct (map path_name (listed_paths fs))"
proof -
  have "distinct (listed_paths fs)" using assms by (simp add: listed_paths_def)
  moreover have "inj_on path_name (set (listed_paths fs))"
  proof (rule inj_onI)
    fix p q assume "p \<in> set (listed_paths fs)" "q \<in> set (listed_paths fs)"
      and e: "path_name p = path_name q"
    then obtain n m where "p = STORAGE_DIR @ CHR ''/'' # n" "segment n"
        "q = STORAGE_DIR @ CHR ''/'' # m" "segment m"
      unfolding listed_paths_iff by blast
    with e show "p = q" by (simp add: path_name_child)
  qed
  ultimately show ?thesis by (simp add: distinct_map)
qed

lemma distinct_map_sort_key:
  "distinct (map f xs) \<Longrightarrow> distinct (map f (sort_key k xs))"
proof -
  assume "distinct (map f xs)"
  then have "distinct xs \<and> inj_on f (set xs)" by (simp only: distinct_map)
  then have "distinct (sort_key k xs) \<and> inj_on f (set (sort_key k xs))" by simp
  then show ?thesis by (simp only: distinct_map)
qed

text \<open>
  When the storage root is a directory and the document loads as an object, the
  listing succeeds; it is sorted by the lower-cased name; a name is listed exactly when it
  is a single segment other than \<^verbatim>\<open>metadata.json\<close> under which the storage root
  holds a regular file; every entry carries the size and time of that file, its download
  address, and the record the document has for the name, or the empty object when it has
  none; and a directory without repeated entries gives a listing without repeated names.
\<close>

lemma list_files_spec:
  assumes "node_at fs STORAGE_DIR = Some Dir" and "load_metadata fs = JObj kvs"
  shows "\<exists>files. list_files fs = Inr (Listing files)
     \<and> sorted (map (\<lambda>x. lower (fi_name x)) files)
     \<and> (\<forall>n. n \<in> fi_name ` set files \<longleftrightarrow>
            segment n \<and> n \<noteq> ''metadata.json'' \<and> is_file fs (STORAGE_DIR @ ''/'' @ n))
     \<and> (\<forall>x\<in>set files. \<exists>data t.
            map_of fs (STORAGE_DIR @ ''/'' @ fi_name x) = Some (File data t)
            \<and> fi_size x = length data \<and> fi_mtime x = t
            \<and> fi_download_url x = ''/api/files/'' @ fi_name x @ ''/download''
            \<and> fi_metadata x = (case map_of kvs (ustr (fi_name x)) of None \<Rightarrow> JObj [] | Some r \<Rightarrow> r))
     \<and> (distinct (map fst fs) \<longrightarrow> distinct (map fi_name files))"
proof -
  let ?files = "sort_key (\<lambda>x. lower (fi_name x)) (map (info_of fs kvs) (listed_paths fs))"
  have f1: "list_files fs = Inr (Listing ?files)" using assms by (rule list_files_eq)
  have f2: "sorted (map (\<lambda>x. lower (fi_name x)) ?files)" by (rule sorted_sort_key)
  have set_files: "set ?files = info_of fs kvs ` set (listed_paths fs)" by simp
  have name: "fi_name (info_of fs kvs p) = path_name p" for p by (simp add: info_of_def)
  have "n \<in> fi_name ` set ?files \<longleftrightarrow>
            segment n \<and> n \<noteq> ''metadata.json'' \<and> is_file fs (STORAGE_DIR @ ''/'' @ n)" for n
  proof
    assume "n \<in> fi_name ` set ?files"
    then obtain p where p: "p \<in> set (listed_paths fs)" "n = path_name p"
      unfolding set_files using name by auto
    from p(1) obtain m where m: "p = STORAGE_DIR @ CHR ''/'' # m" "segment m"
        "m \<noteq> ''metadata.json''" "is_file fs (STORAGE_DIR @ CHR ''/'' # m)"
      unfolding listed_paths_iff by blast
    have "n = m" unfolding p(2) m(1) using m(2) by (rule path_name_child)
    with m show "segment n \<and> n \<noteq> ''metadata.json'' \<and> is_file fs (STORAGE_DIR @ ''/'' @ n)"
      by simp
  next
    assume a: "segment n \<and> n \<noteq> ''metadata.json'' \<and> is_file fs (STORAGE_DIR @ ''/'' @ n)"
    then have "STORAGE_DIR @ CHR ''/'' # n \<in> set (listed_paths fs)"
      unfolding listed_paths_iff by simp
    then have "info_of fs kvs (STORAGE_DIR @ CHR ''/'' # n) \<in> set ?files"
      unfolding set_files by (rule imageI)
    moreover have "fi_name (info_of fs kvs (STORAGE_DIR @ CHR ''/'' # n)) = n"
      unfolding name using a by (simp add: path_name_child)
    ultimately show "n \<in> fi_name ` set ?files" by (metis imageI)
  qed
  then have f3: "\<forall>n. n \<in> fi_name ` set ?files \<longleftrightarrow>
            segment n \<and> n \<noteq> ''metadata.json'' \<and> is_file fs (STORAGE_DIR @ ''/'' @ n)" ..
  have "\<exists>data t.
            map_of fs (STORAGE_DIR @ ''/'' @ fi_name x) = Some (File data t)
            \<and> fi_size x = length data \<and> fi_mtime x = t
            \<and> fi_download_url x = ''/api/files/'' @ fi_name x @ ''/download''
            \<and> fi_metadata x = (case map_of kvs (ustr (fi_name x)) of None \<Rightarrow> JObj [] | Some r \<Rightarrow> r)"
    if "x \<in> set ?files" for x
  proof -
    from that obtain p where p: "p \<in> set (listed_paths fs)" "x = info_of fs kvs p"
      unfolding set_files by blast
    show ?thesis unfolding p(2) using p(1) by (rule info_of_listed)
  qed
  then have f4: "\<forall>x\<in>set ?files. \<exists>data t.
            map_of fs (STORAGE_DIR @ ''/'' @ fi_name x) = Some (File data t)
            \<and> fi_size x = length data \<and> fi_mtime x = t
            \<and> fi_download_url x = ''/api/files/'' @ fi_name x @ ''/download''
            \<and> fi_metadata x = (case map_of kvs (ustr (fi_name x)) of None \<Rightarrow> JObj [] | Some r \<Rightarrow> r)" ..
  have "distinct (map fi_name ?files)" if "distinct (map fst fs)"
  proof -
    have "map fi_name (map (info_of fs kvs) (listed_paths fs)) = map path_name (listed_paths fs)"
      by (simp add: name)
    then have "distinct (map fi_name (map (info_of fs kvs) (listed_paths fs)))"
      using listed_names_distinct [OF that] by (simp only:)
    then show ?thesis by (rule distinct_map_sort_key)
  qed
  then have f5: "distinct (map fst fs) \<longrightarrow> distinct (map fi_name ?files)" ..
  show ?thesis by (intro exI [of _ ?files] conjI f1 f2 f3 f4 f5)
qed

text \<open>The machine's store once \<^verbatim>\<open>b.txt\<close> has a record: the listing carries it.\<close>

lemma list_files_with_record:
  \<open>list_files (snd (metadata_post fs_machine 8 ''b.txt'' ''{"tag": "final", "size": 1.5}''))
     = Inr (Listing
         [\<lparr>fi_name = ''b.txt'', fi_size = 5, fi_mtime = 2,
            fi_download_url = ''/api/files/b.txt/download'',
            fi_metadata = JObj [(ustr ''tag'', JStr (ustr ''final'')), (ustr ''size'', JFloat (Decimal False 15 (- 1)))]\<rparr>,
          \<lparr>fi_name = ''Notes.txt'', fi_size = 3, fi_mtime = 3,
            fi_download_url = ''/api/files/Notes.txt/download'', fi_metadata = JObj []\<rparr>])\<close>
  by code_simp

subsection \<open>The serializer and the parser of JSON are inverse\<close>

lemma hex_val_hex_char: "d < 16 \<Longrightarrow> hex_val (hex_char d) = Some d"
  by (auto simp: hex_val_def hex_char_def Let_def)

lemma hex_val_bound: "hex_val c = Some d \<Longrightarrow> d < 16"
  by (auto simp: hex_val_def Let_def split: if_splits)

lemma hex4_bound: "hex4 a b c d = Some n \<Longrightarrow> n < 65536"
proof -
  assume h: "hex4 a b c d = Some n"
  then obtain x y z w where v: "hex_val a = Some x" "hex_val b = Some y" "hex_val c = Some z"
      "hex_val d = Some w" and n: "n = ((x * 16 + y) * 16 + z) * 16 + w"
    by (auto simp: hex4_def split: option.splits)
  show ?thesis using v [THEN hex_val_bound] unfolding n by simp
qed

lemma hex4_hex4_of:
  assumes "n < 65536"
  shows "hex4 (hex_char (n div 4096)) (hex_char (n div 256 mod 16)) (hex_char (n div 16 mod 16))
           (hex_char (n mod 16)) = Some n"
proof -
  have a: "hex_val (hex_char (n div 4096)) = Some (n div 4096)"
    using assms by (intro hex_val_hex_char) simp
  have b: "hex_val (hex_char (n div 256 mod 16)) = Some (n div 256 mod 16)"
    by (intro hex_val_hex_char) simp
  have c: "hex_val (hex_char (n div 16 mod 16)) = Some (n div 16 mod 16)"
    by (intro hex_val_hex_char) simp
  have d: "hex_val (hex_char (n mod 16)) = Some (n mod 16)"
    by (intro hex_val_hex_char) simp
  have e1: "n div 4096 = n div 256 div 16" and e2: "n div 256 = n div 16 div 16"
    by (simp_all add: div_mult2_eq [symmetric])
  have "n div 4096 * 16 + n div 256 mod 16 = n div 256" unfolding e1 by simp
  moreover have "n div 256 * 16 + n div 16 mod 16 = n div 16" unfolding e2 by simp
  ultimately have "((n div 4096 * 16 + n div 256 mod 16) * 16 + n div 16 mod 16) * 16 + n mod 16 = n"
    by simp
  then show ?thesis by (simp add: hex4_def a b c d)
qed

lemma special_chars:
  "backslash \<noteq> dquote" "dquote \<noteq> backslash"
  "CHR ''u'' \<noteq> dquote" "CHR ''u'' \<noteq> backslash" "CHR ''n'' \<noteq> CHR ''u''"
  by (simp_all add: dquote_def backslash_def)

lemma unescape_special:
  "unescape dquote = Some dquote" "unescape backslash = Some backslash"
  "unescape CHR ''n'' = Some (CHR 0x0A)" "unescape CHR ''r'' = Some (CHR 0x0D)"
  "unescape CHR ''t'' = Some (CHR 0x09)" "unescape CHR ''b'' = Some (CHR 0x08)"
  "unescape CHR ''f'' = Some (CHR 0x0C)"
  by code_simp+

lemma parse_backslash:
  "e \<noteq> CHR ''u'' \<Longrightarrow> unescape e = Some x \<Longrightarrow>
     parse_string_body (backslash # e # tail) = consc (of_char x) (parse_string_body tail)"
  by (simp add: special_chars)

lemma parse_backslash_u_lone:
  "hex4 h1 h2 h3 h4 = Some n \<Longrightarrow> (if high_surrogate n then low_escape tail else None) = None \<Longrightarrow>
     parse_string_body (backslash # CHR ''u'' # h1 # h2 # h3 # h4 # tail)
       = consc n (parse_string_body tail)"
  by (simp add: special_chars)

lemma parse_backslash_u_pair:
  "hex4 h1 h2 h3 h4 = Some n \<Longrightarrow> high_surrogate n \<Longrightarrow> low_escape tail = Some m \<Longrightarrow>
     parse_string_body (backslash # CHR ''u'' # h1 # h2 # h3 # h4 # tail)
       = consc (0x10000 + (n - 0xD800) * 1024 + (m - 0xDC00)) (parse_string_body (drop 6 tail))"
  by (simp add: special_chars)

lemma parse_plain:
  "c \<noteq> dquote \<Longrightarrow> c \<noteq> backslash \<Longrightarrow> 32 \<le> (of_char c :: nat) \<Longrightarrow>
     parse_string_body (c # tail) = consc (of_char c) (parse_string_body tail)"
  by simp

lemma special_codes:
  "(of_char dquote :: nat) = 0x22" "(of_char backslash :: nat) = 0x5C"
  "(of_char (CHR 0x0A) :: nat) = 10" "(of_char (CHR 0x0D) :: nat) = 13"
  "(of_char (CHR 0x09) :: nat) = 9" "(of_char (CHR 0x08) :: nat) = 8"
  "(of_char (CHR 0x0C) :: nat) = 12"
  by (simp_all add: dquote_def backslash_def)

lemma low_escape_hex:
  "hex4 g1 g2 g3 g4 = Some m \<Longrightarrow>
     low_escape (backslash # CHR ''u'' # g1 # g2 # g3 # g4 # t) = (if low_surrogate m then Some m else None)"
  by (simp add: low_escape_def)

lemma low_escape_not_u:
  "e \<noteq> CHR ''u'' \<Longrightarrow> low_escape (b # e # t) = None"
  "c \<noteq> backslash \<Longrightarrow> low_escape (c # t) = None"
  "low_escape [] = None"
  by (auto simp: low_escape_def split: list.splits)

text \<open>The characters of a code point's escape, by the kind of the code point.\<close>

lemma escape_char_cases:
  obtains (special) e x where "escape_char n = [backslash, e]" "e \<noteq> CHR ''u''" "unescape e = Some x"
      "(of_char x :: nat) = n" "n < 128"
    | (plain) c where "escape_char n = [c]" "c \<noteq> dquote" "c \<noteq> backslash" "32 \<le> (of_char c :: nat)"
      "(of_char c :: nat) = n" "n < 128"
    | (bmp) "escape_char n = backslash # CHR ''u'' # hex4_of n" "n < 65536"
    | (pair) "escape_char n = backslash # CHR ''u'' # hex4_of (0xD800 + (n - 0x10000) div 1024)
             @ backslash # CHR ''u'' # hex4_of (0xDC00 + (n - 0x10000) mod 1024)" "65536 \<le> n"
proof -
  consider (dq) "n = 0x22" | (bs) "n = 0x5C" | (nl) "n = 10" | (cr) "n = 13" | (tab) "n = 9"
    | (b) "n = 8" | (f) "n = 12"
    | (pl) "n \<noteq> 0x22" "n \<noteq> 0x5C" "32 \<le> n" "n \<le> 126"
    | (u) "n \<noteq> 0x22" "n \<noteq> 0x5C" "n \<noteq> 10" "n \<noteq> 13" "n \<noteq> 9" "n \<noteq> 8" "n \<noteq> 12"
          "\<not> (32 \<le> n \<and> n \<le> 126)" "n < 65536"
    | (p) "65536 \<le> n"
    by linarith
  then show ?thesis
  proof cases
    case dq
    show ?thesis
      by (rule special [of dquote dquote])
        (simp_all add: dq escape_char_def unescape_special special_codes, simp add: dquote_def)
  next
    case bs
    show ?thesis
      by (rule special [of backslash backslash])
        (simp_all add: bs escape_char_def unescape_special special_codes, simp add: backslash_def)
  next
    case nl
    show ?thesis
      by (rule special [of "CHR ''n''" "CHR 0x0A"])
        (simp_all add: nl escape_char_def unescape_special)
  next
    case cr
    show ?thesis
      by (rule special [of "CHR ''r''" "CHR 0x0D"])
        (simp_all add: cr escape_char_def unescape_special)
  next
    case tab
    show ?thesis
      by (rule special [of "CHR ''t''" "CHR 0x09"])
        (simp_all add: tab escape_char_def unescape_special)
  next
    case b
    show ?thesis
      by (rule special [of "CHR ''b''" "CHR 0x08"])
        (simp_all add: b escape_char_def unescape_special)
  next
    case f
    show ?thesis
      by (rule special [of "CHR ''f''" "CHR 0x0C"])
        (simp_all add: f escape_char_def unescape_special)
  next
    case pl
    have n: "(of_char (char_of n) :: nat) = n" using pl by simp
    have "char_of n \<noteq> dquote"
    proof
      assume a: "char_of n = dquote"
      have "(of_char dquote :: nat) = n" using n unfolding a .
      then show False using pl(1) by (simp add: special_codes)
    qed
    moreover have "char_of n \<noteq> backslash"
    proof
      assume a: "char_of n = backslash"
      have "(of_char backslash :: nat) = n" using n unfolding a .
      then show False using pl(2) by (simp add: special_codes)
    qed
    ultimately have "char_of n \<noteq> dquote" "char_of n \<noteq> backslash" by simp_all
    then show ?thesis
      using pl n by (intro plain [of "char_of n"]) (simp_all add: escape_char_def)
  next
    case u
    then show ?thesis by (intro bmp) (simp_all add: escape_char_def)
  next
    case p
    then show ?thesis by (intro pair) (simp_all add: escape_char_def)
  qed
qed


lemma hex4_of_eq:
  "hex4_of n = [hex_char (n div 4096), hex_char (n div 256 mod 16), hex_char (n div 16 mod 16),
      hex_char (n mod 16)]"
  by (simp add: hex4_of_def)

lemma surrogate_arith:
  assumes "65536 \<le> n" "n < 0x110000"
  shows "high_surrogate (0xD800 + (n - 0x10000) div 1024)"
    and "low_surrogate (0xDC00 + (n - 0x10000) mod 1024)"
    and "0xD800 + (n - 0x10000) div 1024 < 65536"
    and "0xDC00 + (n - 0x10000) mod 1024 < 65536"
    and "0x10000 + (0xD800 + (n - 0x10000) div 1024 - 0xD800) * 1024
           + (0xDC00 + (n - 0x10000) mod 1024 - 0xDC00) = n"
proof -
  define v where "v = n - 0x10000"
  have v: "v < 1048576" "n = v + 65536" using assms by (simp_all add: v_def)
  have d: "v div 1024 < 1024" using v(1) by simp
  have m: "v mod 1024 < 1024" by simp
  show "high_surrogate (0xD800 + (n - 0x10000) div 1024)"
    using d by (simp add: high_surrogate_def v_def [symmetric])
  show "low_surrogate (0xDC00 + (n - 0x10000) mod 1024)"
    using m by (simp add: low_surrogate_def v_def [symmetric])
  show "0xD800 + (n - 0x10000) div 1024 < 65536" using d by (simp add: v_def [symmetric])
  show "0xDC00 + (n - 0x10000) mod 1024 < 65536" using m by (simp add: v_def [symmetric])
  have "v div 1024 * 1024 + v mod 1024 = v" by simp
  then show "0x10000 + (0xD800 + (n - 0x10000) div 1024 - 0xD800) * 1024
           + (0xDC00 + (n - 0x10000) mod 1024 - 0xDC00) = n"
    unfolding v_def [symmetric] using v(2) by simp
qed

lemma surrogates_disjoint: "high_surrogate n \<Longrightarrow> \<not> low_surrogate n"
  by (simp add: high_surrogate_def low_surrogate_def)

text \<open>The escape of a code point that is no low surrogate is not read as one.\<close>

lemma low_escape_escape_char:
  assumes "\<not> low_surrogate n" "n < 0x110000"
  shows "low_escape (escape_char n @ t) = None"
proof (cases n rule: escape_char_cases)
  case (special e x)
  then show ?thesis by (simp add: low_escape_not_u)
next
  case (plain c)
  then show ?thesis by (simp add: low_escape_not_u)
next
  case bmp
  show ?thesis
    unfolding bmp(1) hex4_of_eq using assms(1)
    by (simp add: low_escape_hex [OF hex4_hex4_of [OF bmp(2)]])
next
  case pair
  note s = surrogate_arith [OF pair(2) assms(2)]
  show ?thesis
    unfolding pair(1) hex4_of_eq using surrogates_disjoint [OF s(1)]
    by (simp add: low_escape_hex [OF hex4_hex4_of [OF s(3)]])
qed

lemma low_escape_dquote: "low_escape (dquote # t) = None"
  by (simp add: low_escape_not_u special_chars)

lemma parse_string_body_escape:
  assumes "n < 0x110000" and "high_surrogate n \<Longrightarrow> low_escape tail = None"
  shows "parse_string_body (escape_char n @ tail) = consc n (parse_string_body tail)"
proof (cases n rule: escape_char_cases)
  case (special e x)
  show ?thesis
    unfolding special(1) using parse_backslash [OF special(2,3), of tail] special(4) by simp
next
  case (plain c)
  show ?thesis
    unfolding plain(1) using parse_plain [OF plain(2,3,4), of tail] plain(5) by simp
next
  case bmp
  have l: "(if high_surrogate n then low_escape tail else None) = None" using assms(2) by simp
  show ?thesis
    unfolding bmp(1) hex4_of_eq
    using parse_backslash_u_lone [OF hex4_hex4_of [OF bmp(2)] l] by simp
next
  case pair
  note s = surrogate_arith [OF pair(2) assms(1)]
  let ?hi = "0xD800 + (n - 0x10000) div 1024"
  let ?lo = "0xDC00 + (n - 0x10000) mod 1024"
  let ?t2 = "backslash # CHR ''u'' # hex4_of ?lo @ tail"
  have le: "low_escape ?t2 = Some ?lo"
    unfolding hex4_of_eq using s(2) by (simp add: low_escape_hex [OF hex4_hex4_of [OF s(4)]])
  have d: "drop 6 ?t2 = tail" by (simp add: hex4_of_eq)
  have "parse_string_body (backslash # CHR ''u'' # hex_char (?hi div 4096) # hex_char (?hi div 256 mod 16)
          # hex_char (?hi div 16 mod 16) # hex_char (?hi mod 16) # ?t2)
        = consc (0x10000 + (?hi - 0xD800) * 1024 + (?lo - 0xDC00)) (parse_string_body (drop 6 ?t2))"
    using hex4_hex4_of [OF s(3)] s(1) le by (rule parse_backslash_u_pair)
  then show ?thesis unfolding pair(1) d s(5) by (simp add: hex4_of_eq)
qed

lemma wf_ustring_Cons:
  "wf_ustring (c # s) \<longleftrightarrow>
     c < 0x110000 \<and> (high_surrogate c \<longrightarrow> (case s of [] \<Rightarrow> True | d # _ \<Rightarrow> \<not> low_surrogate d))
     \<and> wf_ustring s"
  by (cases s) auto

lemma wf_ustring_all: "wf_ustring s \<Longrightarrow> \<forall>c\<in>set s. c < 0x110000"
  by (induction s) (auto simp: wf_ustring_Cons)

lemma parse_string_body_encode:
  "wf_ustring s \<Longrightarrow> parse_string_body (concat (map escape_char s) @ dquote # rest) = Some (s, rest)"
proof (induction s)
  case Nil
  then show ?case by simp
next
  case (Cons c s)
  from Cons.prems have c: "c < 0x110000" and w: "wf_ustring s"
    and h: "high_surrogate c \<longrightarrow> (case s of [] \<Rightarrow> True | d # _ \<Rightarrow> \<not> low_surrogate d)"
    by (simp_all add: wf_ustring_Cons)
  let ?tail = "concat (map escape_char s) @ dquote # rest"
  have l: "low_escape ?tail = None" if "high_surrogate c"
  proof (cases s)
    case Nil
    then show ?thesis by (simp add: low_escape_dquote)
  next
    case (Cons d s')
    have "\<not> low_surrogate d" using h that Cons by simp
    moreover have "d < 0x110000" using wf_ustring_all [OF w] Cons by simp
    ultimately show ?thesis using Cons by (simp add: low_escape_escape_char)
  qed
  have "parse_string_body (escape_char c @ ?tail) = consc c (parse_string_body ?tail)"
    using c l by (rule parse_string_body_escape)
  then show ?case using Cons.IH [OF w] by (simp add: consc_def)
qed


lemma consc_Some: "consc c r = Some (x, rest) \<longleftrightarrow> (\<exists>s. r = Some (s, rest) \<and> x = c # s)"
  by (auto simp: consc_def split: option.splits)

lemma of_char_small: "(of_char c :: nat) < 256"
  by simp

lemma small_not_surrogate: "n < 256 \<Longrightarrow> \<not> low_surrogate n \<and> \<not> high_surrogate n \<and> n < 0x110000"
  by (simp add: low_surrogate_def high_surrogate_def)

lemma joined_not_surrogate:
  "\<not> low_surrogate (0x10000 + a * 1024 + b)" "\<not> high_surrogate (0x10000 + a * 1024 + b)"
  by (simp_all add: low_surrogate_def high_surrogate_def)

lemma joined_bound:
  assumes "high_surrogate n" "low_surrogate m"
  shows "0x10000 + (n - 0xD800) * 1024 + (m - 0xDC00) < 0x110000"
proof -
  have "n - 0xD800 \<le> 1023" "m - 0xDC00 \<le> 1023"
    using assms unfolding high_surrogate_def low_surrogate_def by linarith+
  then have "(n - 0xD800) * 1024 \<le> 1023 * 1024" "m - 0xDC00 \<le> 1023" by simp_all
  then show ?thesis by linarith
qed

lemma low_escape_Some: "low_escape t = Some m \<Longrightarrow> low_surrogate m"
  by (auto simp: low_escape_def split: list.splits if_splits option.splits)

text \<open>One step of the scanner: the code point it reads and the text it goes on with.\<close>

lemma parse_string_body_step:
  assumes "parse_string_body t = Some (c # x, r)"
  shows "\<exists>t'. length t' < length t \<and> parse_string_body t' = Some (x, r) \<and> c < 0x110000
     \<and> (low_surrogate c \<longrightarrow> low_escape t = Some c)
     \<and> (high_surrogate c \<longrightarrow> low_escape t' = None)"
proof (cases t)
  case Nil
  with assms show ?thesis by simp
next
  case (Cons a as)
  consider (dq) "a = dquote" | (bs) "a \<noteq> dquote" "a = backslash"
    | (pl) "a \<noteq> dquote" "a \<noteq> backslash" by blast
  then show ?thesis
  proof cases
    case dq
    with assms Cons show ?thesis by simp
  next
    case pl
    with assms Cons have p: "32 \<le> (of_char a :: nat)" "consc (of_char a) (parse_string_body as) = Some (c # x, r)"
      by (auto split: if_splits)
    then have "parse_string_body as = Some (x, r)" "c = of_char a" by (auto simp: consc_Some)
    then show ?thesis
      using Cons small_not_surrogate [OF of_char_small, of a] by (intro exI [of _ as]) simp
  next
    case bs
    then obtain e as1 where as: "as = e # as1" using assms Cons by (cases as) auto
    show ?thesis
    proof (cases "e = CHR ''u''")
      case False
      then obtain y where y: "unescape e = Some y"
        and p: "consc (of_char y) (parse_string_body as1) = Some (c # x, r)"
        using assms Cons bs as by (auto split: option.splits)
      then have "parse_string_body as1 = Some (x, r)" "c = of_char y" by (auto simp: consc_Some)
      then show ?thesis
        using Cons as small_not_surrogate [OF of_char_small, of y] by (intro exI [of _ as1]) simp
    next
      case True
      then obtain h1 h2 h3 h4 as2 where as1: "as1 = h1 # h2 # h3 # h4 # as2"
        using assms Cons bs as by (auto split: list.splits)
      then obtain n where n: "hex4 h1 h2 h3 h4 = Some n"
        using assms Cons bs as True by (auto split: option.splits)
      have t: "t = backslash # CHR ''u'' # h1 # h2 # h3 # h4 # as2"
        using Cons bs as True as1 by simp
      show ?thesis
      proof (cases "if high_surrogate n then low_escape as2 else None")
        case None
        have "parse_string_body t = consc n (parse_string_body as2)"
          unfolding t using n None by (rule parse_backslash_u_lone)
        then have "consc n (parse_string_body as2) = Some (c # x, r)" using assms by simp
        then have p: "parse_string_body as2 = Some (x, r)" "c = n" by (auto simp: consc_Some)
        have "low_escape t = (if low_surrogate n then Some n else None)"
          unfolding t using n by (rule low_escape_hex)
        moreover have "high_surrogate n \<longrightarrow> low_escape as2 = None"
          using None by (auto split: if_splits)
        ultimately show ?thesis
          using p hex4_bound [OF n] unfolding t by (intro exI [of _ as2]) simp
      next
        case (Some m)
        then have h: "high_surrogate n" and l: "low_escape as2 = Some m" by (auto split: if_splits)
        have "parse_string_body t
            = consc (0x10000 + (n - 0xD800) * 1024 + (m - 0xDC00)) (parse_string_body (drop 6 as2))"
          unfolding t using n h l by (rule parse_backslash_u_pair)
        then have "consc (0x10000 + (n - 0xD800) * 1024 + (m - 0xDC00)) (parse_string_body (drop 6 as2))
            = Some (c # x, r)"
          using assms by simp
        then have p: "parse_string_body (drop 6 as2) = Some (x, r)"
          "c = 0x10000 + (n - 0xD800) * 1024 + (m - 0xDC00)" by (auto simp: consc_Some)
        have "c < 0x110000" unfolding p(2) using h low_escape_Some [OF l] by (rule joined_bound)
        then show ?thesis
          using p(1) joined_not_surrogate [of "n - 0xD800" "m - 0xDC00"] unfolding t p(2)
          by (intro exI [of _ "drop 6 as2"]) simp
      qed
    qed
  qed
qed

lemma parse_string_body_wf: "parse_string_body t = Some (x, r) \<Longrightarrow> wf_ustring x"
proof (induction x arbitrary: t)
  case Nil
  then show ?case by simp
next
  case (Cons c x)
  from parse_string_body_step [OF Cons.prems] obtain t' where
    p: "parse_string_body t' = Some (x, r)" and c: "c < 0x110000"
    and h: "high_surrogate c \<longrightarrow> low_escape t' = None" by blast
  have w: "wf_ustring x" using p by (rule Cons.IH)
  have "\<not> low_surrogate d" if "high_surrogate c" "x = d # ds" for d ds
  proof
    assume "low_surrogate d"
    moreover from parse_string_body_step [OF p [unfolded that(2)]]
    have "low_surrogate d \<longrightarrow> low_escape t' = Some d" by blast
    ultimately show False using h that(1) by simp
  qed
  then show ?case using c w by (auto simp: wf_ustring_Cons split: list.splits)
qed

lemma wf_ustr: "wf_ustring (ustr s)"
proof (induction s)
  case Nil
  then show ?case by (simp add: ustr_def)
next
  case (Cons c s)
  then show ?case
    using small_not_surrogate [OF of_char_small, of c] by (simp add: ustr_def wf_ustring_Cons)
qed

lemma ustr_inj: "ustr a = ustr b \<longleftrightarrow> a = b"
proof -
  have "inj (of_char :: char \<Rightarrow> nat)" by (rule injI) simp
  then show ?thesis unfolding ustr_def by (simp add: inj_map_eq_map)
qed


lemma is_digit_digit_char: "d < 10 \<Longrightarrow> is_digit (digit_char d)"
  by (simp add: is_digit_def digit_char_def)

lemma digit_val_digit_char: "d < 10 \<Longrightarrow> digit_val (digit_char d) = d"
  by (simp add: digit_val_def digit_char_def)

lemma digit_char_zero: "d < 10 \<Longrightarrow> digit_char d = CHR ''0'' \<longleftrightarrow> d = 0"
proof -
  assume d: "d < 10"
  have "digit_char 0 = CHR ''0''" by code_simp
  moreover have "d = 0" if "digit_char d = CHR ''0''"
  proof -
    have "digit_val (digit_char d) = digit_val CHR ''0''" using that by simp
    moreover have "digit_val CHR ''0'' = 0" by code_simp
    ultimately show ?thesis using d by (simp add: digit_val_digit_char)
  qed
  ultimately show ?thesis by auto
qed

lemma digits_of_all: "\<forall>c\<in>set (digits_of n). is_digit c"
  by (induction n rule: digits_of.induct) (subst digits_of.simps, simp add: is_digit_digit_char)

lemma digits_of_nonempty: "digits_of n \<noteq> []"
  by (subst digits_of.simps) simp

lemma nat_of_digits_snoc: "nat_of_digits (ds @ [d]) = 10 * nat_of_digits ds + digit_val d"
  by (simp add: nat_of_digits_def)

lemma nat_of_digits_digits_of: "nat_of_digits (digits_of n) = n"
proof (induction n rule: digits_of.induct)
  case (1 n)
  show ?case
  proof (cases "n < 10")
    case True
    then show ?thesis
      by (subst digits_of.simps) (simp add: nat_of_digits_def digit_val_digit_char)
  next
    case False
    then have "nat_of_digits (digits_of (n div 10)) = n div 10" using 1 by simp
    then show ?thesis
      using False by (subst digits_of.simps) (simp add: nat_of_digits_snoc digit_val_digit_char)
  qed
qed

lemma hd_digits_of_zero: "hd (digits_of n) = CHR ''0'' \<longleftrightarrow> n = 0"
proof (induction n rule: digits_of.induct)
  case (1 n)
  show ?case
  proof (cases "n < 10")
    case True
    then show ?thesis by (subst digits_of.simps) (simp add: digit_char_zero)
  next
    case False
    then have "hd (digits_of (n div 10)) = CHR ''0'' \<longleftrightarrow> n div 10 = 0" using 1 by simp
    moreover have "n div 10 \<noteq> 0" using False by simp
    ultimately show ?thesis
      using False digits_of_nonempty [of "n div 10"]
      by (subst digits_of.simps) (simp add: hd_append)
  qed
qed

lemma digits_of_zero: "digits_of 0 = ''0''"
  by code_simp

lemma delim_not_digit: "delim rest \<Longrightarrow> takeWhile is_digit rest = [] \<and> dropWhile is_digit rest = rest"
  by (cases rest) (auto simp: delim_def is_digit_def newline_def)


lemma digits_tw:
  assumes "\<forall>x\<in>set ds. is_digit x" and "delim rest"
  shows "takeWhile is_digit (ds @ rest) = ds" "dropWhile is_digit (ds @ rest) = rest"
  using assms delim_not_digit [OF assms(2)] by (simp_all add: takeWhile_append dropWhile_append)

lemma digits_tw_char:
  assumes "\<forall>x\<in>set ds. is_digit x" and "\<not> is_digit c"
  shows "takeWhile is_digit (ds @ c # rest) = ds" "dropWhile is_digit (ds @ c # rest) = c # rest"
  using assms by (simp_all add: takeWhile_append dropWhile_append)

lemma not_digit_chars:
  "\<not> is_digit CHR ''.''" "\<not> is_digit CHR ''e''" "\<not> is_digit CHR ''-''" "\<not> is_digit CHR ''+''"
  "is_digit CHR ''0''"
  by (simp_all add: is_digit_def)

lemma nat_of_digits_append:
  "nat_of_digits (a @ b) = nat_of_digits a * 10 ^ length b + nat_of_digits b"
proof (induction b rule: rev_induct)
  case Nil
  then show ?case by (simp add: nat_of_digits_def)
next
  case (snoc x xs)
  have "nat_of_digits (a @ xs @ [x]) = 10 * nat_of_digits (a @ xs) + digit_val x"
    using nat_of_digits_snoc [of "a @ xs" x] by simp
  then show ?case using snoc by (simp add: nat_of_digits_snoc algebra_simps)
qed

lemma nat_of_digits_Nil: "nat_of_digits [] = 0"
  by (simp add: nat_of_digits_def)

lemma nat_of_digits_zero_Cons: "nat_of_digits (CHR ''0'' # s) = nat_of_digits s"
  using nat_of_digits_append [of "''0''" s] by (simp add: nat_of_digits_def digit_val_def)

lemma nat_of_digits_zeros: "nat_of_digits (replicate k CHR ''0'') = 0"
  by (induction k) (simp_all add: nat_of_digits_Nil nat_of_digits_zero_Cons)

lemma strip_zeros_zero: "strip_zeros 0 e = (0, 0)"
  by (simp add: strip_zeros.simps)

lemma strip_zeros_canon: "m mod 10 \<noteq> 0 \<Longrightarrow> strip_zeros (m * 10 ^ j) (e - int j) = (m, e)"
proof (induction j arbitrary: e)
  case 0
  then show ?case by (subst strip_zeros.simps) auto
next
  case (Suc j)
  have m: "m \<noteq> 0" using Suc.prems by auto
  have "strip_zeros (m * 10 ^ Suc j) (e - int (Suc j)) = strip_zeros (m * 10 ^ j) (e - int (Suc j) + 1)"
    using m by (subst strip_zeros.simps) simp
  also have "e - int (Suc j) + 1 = e - int j" by simp
  finally show ?case using Suc.IH [OF Suc.prems] by simp
qed

lemma strip_zeros_wf: "strip_zeros m e = (m', e') \<Longrightarrow> (if m' = 0 then e' = 0 else m' mod 10 \<noteq> 0)"
proof (induction m e rule: strip_zeros.induct)
  case (1 m e)
  show ?case
  proof (cases "m = 0")
    case True
    then show ?thesis using "1.prems" by (simp add: strip_zeros.simps)
  next
    case False
    show ?thesis
    proof (cases "m mod 10 = 0")
      case True
      then have "strip_zeros (m div 10) (e + 1) = (m', e')"
        using False "1.prems" by (subst (asm) strip_zeros.simps) simp
      then show ?thesis using "1.IH" False True by simp
    next
      case m: False
      then have "(m', e') = (m, e)" using False "1.prems" by (subst (asm) strip_zeros.simps) simp
      then show ?thesis using m False by simp
    qed
  qed
qed

lemma float_of_literal_canon:
  assumes "if m = 0 then e = 0 else m mod 10 \<noteq> 0"
    and "nat_of_digits ds = m * 10 ^ j" and "x = e - int j"
  shows "float_of_literal s ds x = Decimal s m e"
proof (cases "m = 0")
  case True
  then show ?thesis using assms by (simp add: float_of_literal_def strip_zeros_zero)
next
  case False
  then have "m mod 10 \<noteq> 0" using assms(1) by simp
  then show ?thesis using assms(2,3) by (simp add: float_of_literal_def strip_zeros_canon)
qed

lemma float_of_literal_wf: "wf_float (float_of_literal s ds x)"
proof -
  obtain m e where st: "strip_zeros (nat_of_digits ds) x = (m, e)" by force
  show ?thesis using strip_zeros_wf [OF st] by (simp add: float_of_literal_def st)
qed

lemma parse_int_part_digits:
  assumes "ds \<noteq> []" and "\<forall>x\<in>set ds. is_digit x" and "hd ds = CHR ''0'' \<longrightarrow> ds = ''0''"
    and "takeWhile is_digit rest = []" and "dropWhile is_digit rest = rest"
  shows "parse_int_part (ds @ rest) = Some (ds, rest)"
proof -
  obtain c cs where d: "ds = c # cs" using assms(1) by (cases ds) auto
  show ?thesis
  proof (cases "c = CHR ''0''")
    case True
    then have "ds = ''0''" using assms(3) d by simp
    then show ?thesis by (simp add: parse_int_part_def)
  next
    case False
    have "takeWhile is_digit (cs @ rest) = cs" "dropWhile is_digit (cs @ rest) = rest"
      using assms(2,4,5) d by (simp_all add: takeWhile_append dropWhile_append)
    then show ?thesis using False assms(2) d by (simp add: parse_int_part_def)
  qed
qed

lemma nondigit_rest:
  "\<not> is_digit c \<Longrightarrow> takeWhile is_digit (c # s) = [] \<and> dropWhile is_digit (c # s) = c # s"
  by simp

lemma parse_frac_digits:
  assumes "ds \<noteq> []" and "\<forall>x\<in>set ds. is_digit x"
    and "takeWhile is_digit rest = []" and "dropWhile is_digit rest = rest"
  shows "parse_frac (CHR ''.'' # ds @ rest) = (ds, rest)"
proof -
  obtain c cs where d: "ds = c # cs" using assms(1) by (cases ds) auto
  have "takeWhile is_digit (cs @ rest) = cs" "dropWhile is_digit (cs @ rest) = rest"
    using assms(2,3,4) d by (simp_all add: takeWhile_append dropWhile_append)
  then show ?thesis using assms(2) d by (simp add: parse_frac_def)
qed

lemma parse_frac_none: "(case s of [] \<Rightarrow> True | c # _ \<Rightarrow> c \<noteq> CHR ''.'') \<Longrightarrow> parse_frac s = ([], s)"
  by (auto simp: parse_frac_def split: list.splits)

lemma parse_exp_none: "(case s of [] \<Rightarrow> True | c # _ \<Rightarrow> c \<noteq> CHR ''e'' \<and> c \<noteq> CHR ''E'') \<Longrightarrow> parse_exp s = None"
  by (auto simp: parse_exp_def split: list.splits)

lemma delim_no_frac_exp: "delim rest \<Longrightarrow> parse_frac rest = ([], rest) \<and> parse_exp rest = None"
  by (cases rest) (auto simp: delim_def newline_def parse_frac_none parse_exp_none)

lemma parse_exp_digits:
  assumes "ds \<noteq> []" and "\<forall>x\<in>set ds. is_digit x"
    and "takeWhile is_digit rest = []" and "dropWhile is_digit rest = rest"
  shows "parse_exp (CHR ''e'' # CHR ''+'' # ds @ rest) = Some (int (nat_of_digits ds), rest)"
    and "parse_exp (CHR ''e'' # CHR ''-'' # ds @ rest) = Some (- int (nat_of_digits ds), rest)"
proof -
  obtain c cs where d: "ds = c # cs" using assms(1) by (cases ds) auto
  have tw: "takeWhile is_digit (ds @ rest) = ds" "dropWhile is_digit (ds @ rest) = rest"
    using assms(2,3,4) by (simp_all add: takeWhile_append dropWhile_append)
  have c: "is_digit c" using assms(2) d by simp
  show "parse_exp (CHR ''e'' # CHR ''+'' # ds @ rest) = Some (int (nat_of_digits ds), rest)"
    using tw c unfolding d by (simp add: parse_exp_def)
  show "parse_exp (CHR ''e'' # CHR ''-'' # ds @ rest) = Some (- int (nat_of_digits ds), rest)"
    using tw c unfolding d by (simp add: parse_exp_def)
qed

lemma pad2_digits:
  assumes "ds \<noteq> []" and "\<forall>x\<in>set ds. is_digit x"
  shows "pad2 ds \<noteq> []" "\<forall>x\<in>set (pad2 ds). is_digit x" "nat_of_digits (pad2 ds) = nat_of_digits ds"
  using assms by (simp_all add: pad2_def nat_of_digits_zero_Cons not_digit_chars)


lemma parse_number_unsigned:
  assumes "parse_int_part t = Some (ip, r1)" and "parse_frac r1 = (fp, r2)"
    and "t \<noteq> []" and "hd t \<noteq> CHR ''-''"
  shows "parse_number (if s then CHR ''-'' # t else t) =
     (case parse_exp r2 of
        None \<Rightarrow>
          if fp = [] then Some (JInt (if s then - int (nat_of_digits ip) else int (nat_of_digits ip)), r1)
          else Some (JFloat (float_of_literal s (ip @ fp) (- int (length fp))), r2)
      | Some (ex, r3) \<Rightarrow> Some (JFloat (float_of_literal s (ip @ fp) (ex - int (length fp))), r3))"
proof -
  obtain c cs where t: "t = c # cs" using assms(3) by (cases t) auto
  have c: "c \<noteq> CHR ''-''" using assms(4) t by simp
  show ?thesis
  proof (cases s)
    case True
    then show ?thesis using assms(1,2) by (auto simp: parse_number_def split: option.splits)
  next
    case False
    then show ?thesis
      using assms(1,2) c unfolding t by (auto simp: parse_number_def split: option.splits)
  qed
qed


lemma digits_of_facts:
  "digits_of m \<noteq> []" "\<forall>x\<in>set (digits_of m). is_digit x"
  "hd (digits_of m) = CHR ''0'' \<longrightarrow> digits_of m = ''0''"
  using digits_of_nonempty digits_of_all hd_digits_of_zero [of m] digits_of_zero by auto

lemma parse_number_float_exp:
  assumes r: "delim rest" and m: "m mod 10 \<noteq> 0"
    and x: "x = int (length (digits_of m)) + e - 1"
    and rp: "rp = hd (digits_of m) # (if tl (digits_of m) = [] then [] else CHR ''.'' # tl (digits_of m))
               @ CHR ''e'' # (if x < 0 then CHR ''-'' else CHR ''+'') # pad2 (digits_of (nat \<bar>x\<bar>))"
  shows "parse_number ((if s then CHR ''-'' # rp else rp) @ rest) = Some (JFloat (Decimal s m e), rest)"
proof -
  let ?ds = "digits_of m"
  let ?xs = "pad2 (digits_of (nat \<bar>x\<bar>))"
  let ?sg = "if x < 0 then CHR ''-'' else CHR ''+''"
  let ?ex = "CHR ''e'' # ?sg # ?xs @ rest"
  let ?fr = "(if tl ?ds = [] then [] else CHR ''.'' # tl ?ds) @ ?ex"
  let ?t = "hd ?ds # ?fr"
  obtain c cs where d: "?ds = c # cs" using digits_of_nonempty [of m] by (cases ?ds) auto
  have m0: "m \<noteq> 0" using m by auto
  have c0: "c \<noteq> CHR ''0''" using hd_digits_of_zero [of m] m0 d by simp
  have dig: "is_digit c" "\<forall>x\<in>set cs. is_digit x" using digits_of_all [of m] d by auto
  have nd: "takeWhile is_digit rest = []" "dropWhile is_digit rest = rest"
    using delim_not_digit [OF r] by simp_all
  have xs: "?xs \<noteq> []" "\<forall>x\<in>set ?xs. is_digit x" "nat_of_digits ?xs = nat \<bar>x\<bar>"
    using pad2_digits [OF digits_of_nonempty digits_of_all, of "nat \<bar>x\<bar>"]
    by (simp_all add: nat_of_digits_digits_of)
  have fr_nd: "takeWhile is_digit ?fr = []" "dropWhile is_digit ?fr = ?fr"
    by (simp_all add: not_digit_chars)
  have ip: "parse_int_part ?t = Some ([c], ?fr)"
    using parse_int_part_digits [of "[c]" ?fr] dig(1) c0 fr_nd d by simp
  have ex_nd: "takeWhile is_digit ?ex = []" "dropWhile is_digit ?ex = ?ex"
    by (simp_all add: not_digit_chars)
  have fp: "parse_frac ?fr = (cs, ?ex)"
  proof (cases "cs = []")
    case True
    then show ?thesis using d by (simp add: parse_frac_none)
  next
    case False
    then show ?thesis using parse_frac_digits [OF False dig(2) ex_nd] d by simp
  qed
  have pe: "parse_exp ?ex = Some (x, rest)"
    using parse_exp_digits [OF xs(1,2) nd] xs(3) by (cases "x < 0") simp_all
  have t: "?t \<noteq> []" "hd ?t \<noteq> CHR ''-''" using dig(1) d by (auto simp: is_digit_def)
  have n: "nat_of_digits ([c] @ cs) = m * 10 ^ 0" using nat_of_digits_digits_of [of m] d by simp
  have f: "float_of_literal s ([c] @ cs) (x - int (length cs)) = Decimal s m e"
    using m m0 n by (intro float_of_literal_canon [where j = 0]) (simp_all add: x d)
  have "parse_number (if s then CHR ''-'' # ?t else ?t) = Some (JFloat (Decimal s m e), rest)"
    unfolding parse_number_unsigned [OF ip fp t] pe using f by simp
  then show ?thesis unfolding rp by (cases s) simp_all
qed


lemma parse_number_float_small:
  assumes r: "delim rest" and m: "m mod 10 \<noteq> 0"
    and k: "int k = - (int (length (digits_of m)) + e)"
    and rp: "rp = ''0.'' @ replicate k CHR ''0'' @ digits_of m"
  shows "parse_number ((if s then CHR ''-'' # rp else rp) @ rest) = Some (JFloat (Decimal s m e), rest)"
proof -
  let ?ds = "digits_of m"
  let ?fp = "replicate k CHR ''0'' @ ?ds"
  let ?t = "CHR ''0'' # CHR ''.'' # ?fp @ rest"
  have m0: "m \<noteq> 0" using m by auto
  have nd: "takeWhile is_digit rest = []" "dropWhile is_digit rest = rest"
    using delim_not_digit [OF r] by simp_all
  have fpd: "?fp \<noteq> []" "\<forall>x\<in>set ?fp. is_digit x"
    using digits_of_nonempty digits_of_all by (auto simp: not_digit_chars)
  have ip: "parse_int_part ?t = Some (''0'', CHR ''.'' # ?fp @ rest)"
    by (simp add: parse_int_part_def)
  have fp: "parse_frac (CHR ''.'' # ?fp @ rest) = (?fp, rest)"
    using fpd nd by (rule parse_frac_digits)
  have pe: "parse_exp rest = None" using delim_no_frac_exp [OF r] by simp
  have t: "?t \<noteq> []" "hd ?t \<noteq> CHR ''-''" by simp_all
  have n: "nat_of_digits (''0'' @ ?fp) = m * 10 ^ 0"
    using nat_of_digits_append [of "replicate k CHR ''0''" ?ds]
    by (simp add: nat_of_digits_zero_Cons nat_of_digits_zeros nat_of_digits_digits_of)
  have f: "float_of_literal s (''0'' @ ?fp) (- int (length ?fp)) = Decimal s m e"
    using m m0 n k by (intro float_of_literal_canon [where j = 0]) simp_all
  have "parse_number (if s then CHR ''-'' # ?t else ?t) = Some (JFloat (Decimal s m e), rest)"
    unfolding parse_number_unsigned [OF ip fp t] pe using f fpd(1) by simp
  then show ?thesis unfolding rp by (cases s) simp_all
qed

lemma parse_number_float_whole:
  assumes r: "delim rest" and w: "if m = 0 then e = 0 else m mod 10 \<noteq> 0"
    and k: "int k = e"
    and rp: "rp = digits_of m @ replicate k CHR ''0'' @ ''.0''"
  shows "parse_number ((if s then CHR ''-'' # rp else rp) @ rest) = Some (JFloat (Decimal s m e), rest)"
proof -
  let ?ds = "digits_of m"
  let ?ip = "?ds @ replicate k CHR ''0''"
  let ?t = "?ip @ CHR ''.'' # CHR ''0'' # rest"
  have nd: "takeWhile is_digit rest = []" "dropWhile is_digit rest = rest"
    using delim_not_digit [OF r] by simp_all
  have k0: "m = 0 \<Longrightarrow> k = 0" using w k by simp
  have ipd: "?ip \<noteq> []" "\<forall>x\<in>set ?ip. is_digit x"
    using digits_of_nonempty digits_of_all by (auto simp: not_digit_chars)
  have hd0: "hd ?ip = CHR ''0'' \<longrightarrow> ?ip = ''0''"
    using hd_digits_of_zero [of m] digits_of_nonempty [of m] k0 digits_of_zero
    by (auto simp: hd_append)
  have ip: "parse_int_part ?t = Some (?ip, CHR ''.'' # CHR ''0'' # rest)"
    using ipd hd0 by (rule parse_int_part_digits) (simp_all add: not_digit_chars)
  have fp: "parse_frac (CHR ''.'' # CHR ''0'' # rest) = (''0'', rest)"
    using parse_frac_digits [of "''0''" rest] nd by (simp add: not_digit_chars)
  have pe: "parse_exp rest = None" using delim_no_frac_exp [OF r] by simp
  obtain c cs where d: "?ds = c # cs" using digits_of_nonempty [of m] by (cases ?ds) auto
  have "is_digit c" using digits_of_all [of m] d by auto
  then have t: "?t \<noteq> []" "hd ?t \<noteq> CHR ''-''" using d by (auto simp: is_digit_def)
  have n: "nat_of_digits (?ip @ ''0'') = m * 10 ^ (Suc k)"
    using nat_of_digits_append [of ?ds "replicate k CHR ''0'' @ ''0''"]
      nat_of_digits_append [of "replicate k CHR ''0''" "''0''"]
    by (simp add: nat_of_digits_zeros nat_of_digits_digits_of nat_of_digits_zero_Cons
        nat_of_digits_Nil)
  have f: "float_of_literal s (?ip @ ''0'') (- int (length ''0'')) = Decimal s m e"
    using w n k by (intro float_of_literal_canon [where j = "Suc k"]) simp_all
  have "parse_number (if s then CHR ''-'' # ?t else ?t) = Some (JFloat (Decimal s m e), rest)"
    unfolding parse_number_unsigned [OF ip fp t] pe using f by simp
  then show ?thesis unfolding rp by (cases s) simp_all
qed

lemma parse_number_float_point:
  assumes r: "delim rest" and m: "m mod 10 \<noteq> 0"
    and k: "0 < k" "k < length (digits_of m)" "int k = int (length (digits_of m)) + e"
    and rp: "rp = take k (digits_of m) @ CHR ''.'' # drop k (digits_of m)"
  shows "parse_number ((if s then CHR ''-'' # rp else rp) @ rest) = Some (JFloat (Decimal s m e), rest)"
proof -
  let ?ds = "digits_of m"
  let ?ip = "take k ?ds"
  let ?fp = "drop k ?ds"
  let ?t = "?ip @ CHR ''.'' # ?fp @ rest"
  have m0: "m \<noteq> 0" using m by auto
  have nd: "takeWhile is_digit rest = []" "dropWhile is_digit rest = rest"
    using delim_not_digit [OF r] by simp_all
  have ipd: "?ip \<noteq> []" "\<forall>x\<in>set ?ip. is_digit x"
    using k digits_of_all [of m] by (auto dest: in_set_takeD)
  have fpd: "?fp \<noteq> []" "\<forall>x\<in>set ?fp. is_digit x"
    using k digits_of_all [of m] by (auto dest: in_set_dropD)
  have "hd ?ip = hd ?ds" using k by (cases ?ds) (auto simp: take_Cons')
  then have hd0: "hd ?ip = CHR ''0'' \<longrightarrow> ?ip = ''0''" using hd_digits_of_zero [of m] m0 by simp
  have ip: "parse_int_part ?t = Some (?ip, CHR ''.'' # ?fp @ rest)"
    using ipd hd0 by (rule parse_int_part_digits) (simp_all add: not_digit_chars)
  have fp: "parse_frac (CHR ''.'' # ?fp @ rest) = (?fp, rest)"
    using fpd nd by (rule parse_frac_digits)
  have pe: "parse_exp rest = None" using delim_no_frac_exp [OF r] by simp
  obtain c cs where d: "?ip = c # cs" using ipd(1) by (cases ?ip) auto
  have "is_digit c" using ipd(2) d by auto
  then have t: "?t \<noteq> []" "hd ?t \<noteq> CHR ''-''" using d by (auto simp: is_digit_def)
  have n: "nat_of_digits (?ip @ ?fp) = m * 10 ^ 0" by (simp add: nat_of_digits_digits_of)
  have f: "float_of_literal s (?ip @ ?fp) (- int (length ?fp)) = Decimal s m e"
    using m m0 n k by (intro float_of_literal_canon [where j = 0]) simp_all
  have "parse_number (if s then CHR ''-'' # ?t else ?t) = Some (JFloat (Decimal s m e), rest)"
    unfolding parse_number_unsigned [OF ip fp t] pe using f fpd(1) by simp
  then show ?thesis unfolding rp by (cases s) simp_all
qed

lemma parse_number_encode_float:
  assumes r: "delim rest" and w: "wf_float (Decimal s m e)"
  shows "parse_number (encode_float (Decimal s m e) @ rest) = Some (JFloat (Decimal s m e), rest)"
proof -
  let ?ds = "digits_of m"
  let ?n = "int (length ?ds)"
  let ?decpt = "?n + e"
  have w': "if m = 0 then e = 0 else m mod 10 \<noteq> 0" using w by simp
  have z: "m = 0 \<Longrightarrow> ?decpt = 1" using w' by (simp add: digits_of_zero)
  have enc: "encode_float (Decimal s m e) = (if s then CHR ''-'' # float_repr m e else float_repr m e)"
    by simp
  consider (exp) "?decpt < - 3 \<or> 16 < ?decpt"
    | (small) "\<not> (?decpt < - 3 \<or> 16 < ?decpt)" "?decpt \<le> 0"
    | (whole) "\<not> (?decpt < - 3 \<or> 16 < ?decpt)" "\<not> ?decpt \<le> 0" "?n \<le> ?decpt"
    | (point) "\<not> (?decpt < - 3 \<or> 16 < ?decpt)" "\<not> ?decpt \<le> 0" "\<not> ?n \<le> ?decpt"
    by blast
  then show ?thesis
  proof cases
    case exp
    then have m: "m mod 10 \<noteq> 0" using w' z by (cases "m = 0") auto
    have x: "?decpt - 1 = ?n + e - 1" by simp
    have rp: "float_repr m e = hd ?ds # (if tl ?ds = [] then [] else CHR ''.'' # tl ?ds)
               @ CHR ''e'' # (if ?decpt - 1 < 0 then CHR ''-'' else CHR ''+'')
               # pad2 (digits_of (nat \<bar>?decpt - 1\<bar>))"
      unfolding float_repr_def Let_def by (simp only: exp if_True)
    show ?thesis unfolding enc using r m x rp by (rule parse_number_float_exp)
  next
    case small
    then have m: "m mod 10 \<noteq> 0" using w' z by (cases "m = 0") auto
    have k: "int (nat (- ?decpt)) = - (?n + e)" using small by simp
    have rp: "float_repr m e = ''0.'' @ replicate (nat (- ?decpt)) CHR ''0'' @ ?ds"
      unfolding float_repr_def Let_def by (simp only: small if_True if_False)
    show ?thesis unfolding enc using r m k rp by (rule parse_number_float_small)
  next
    case whole
    have k: "int (nat (?decpt - ?n)) = e" using whole by simp
    have rp: "float_repr m e = ?ds @ replicate (nat (?decpt - ?n)) CHR ''0'' @ ''.0''"
      unfolding float_repr_def Let_def by (simp only: whole if_True if_False)
    show ?thesis unfolding enc using r w' k rp by (rule parse_number_float_whole)
  next
    case point
    then have m: "m mod 10 \<noteq> 0" using w' z by (cases "m = 0") (auto simp: digits_of_zero)
    have k: "0 < nat ?decpt" "nat ?decpt < length ?ds" "int (nat ?decpt) = ?n + e"
      using point by simp_all
    have rp: "float_repr m e = take (nat ?decpt) ?ds @ CHR ''.'' # drop (nat ?decpt) ?ds"
      unfolding float_repr_def Let_def by (simp only: point if_True if_False)
    show ?thesis unfolding enc using r m k rp by (rule parse_number_float_point)
  qed
qed

lemma parse_number_no_digit:
  assumes "c \<noteq> CHR ''-''" and "\<not> is_digit c"
  shows "parse_number (c # cs) = None" "parse_number (CHR ''-'' # c # cs) = None"
  using assms by (auto simp: parse_number_def parse_int_part_def is_digit_def)

lemma parse_numeric_encode_float:
  assumes r: "delim rest" and w: "wf_float f"
  shows "parse_numeric (encode_float f @ rest) = Some (JFloat f, rest)"
proof (cases f)
  case (Decimal s m e)
  then show ?thesis using parse_number_encode_float [OF r] w by (simp add: parse_numeric_def)
next
  case (Infinity s)
  have "parse_number (CHR ''I'' # cs) = None" "parse_number (CHR ''-'' # CHR ''I'' # cs) = None" for cs
    by (rule parse_number_no_digit; simp add: is_digit_def)+
  then show ?thesis using Infinity by (simp add: parse_numeric_def)
next
  case NaN
  have "parse_number (CHR ''N'' # cs) = None" for cs
    by (rule parse_number_no_digit; simp add: is_digit_def)
  then show ?thesis using NaN by (simp add: parse_numeric_def)
qed


lemma parse_number_encode_int:
  assumes "delim rest"
  shows "parse_number (encode_int i @ rest) = Some (JInt i, rest)"
proof -
  let ?n = "if i < 0 then nat (- i) else nat i"
  let ?t = "digits_of ?n @ rest"
  have nd: "takeWhile is_digit rest = []" "dropWhile is_digit rest = rest"
    using delim_not_digit [OF assms] by simp_all
  have ip: "parse_int_part ?t = Some (digits_of ?n, rest)"
    using digits_of_facts [of ?n] nd by (rule parse_int_part_digits)
  have fp: "parse_frac rest = ([], rest)" and pe: "parse_exp rest = None"
    using delim_no_frac_exp [OF assms] by simp_all
  obtain c cs where d: "digits_of ?n = c # cs"
    using digits_of_nonempty [of ?n] by (cases "digits_of ?n") auto
  have "is_digit c" using digits_of_all [of ?n] d by auto
  then have t: "?t \<noteq> []" "hd ?t \<noteq> CHR ''-''" using d by (auto simp: is_digit_def)
  have "parse_number (if i < 0 then CHR ''-'' # ?t else ?t) = Some (JInt i, rest)"
    unfolding parse_number_unsigned [OF ip fp t] pe
    by (simp add: nat_of_digits_digits_of)
  then show ?thesis by (cases "i < 0") (simp_all add: encode_int_def)
qed

lemma parse_numeric_encode_int:
  assumes "delim rest"
  shows "parse_numeric (encode_int i @ rest) = Some (JInt i, rest)"
  using parse_number_encode_int [OF assms] by (simp add: parse_numeric_def)

lemma encode_int_hd:
  "\<exists>c cs. encode_int i = c # cs \<and> (c = CHR ''-'' \<or> is_digit c \<or> c = CHR ''N'' \<or> c = CHR ''I'')"
proof (cases "i < 0")
  case True
  then show ?thesis by (simp add: encode_int_def)
next
  case False
  obtain c cs where d: "digits_of (nat i) = c # cs"
    using digits_of_nonempty [of "nat i"] by (cases "digits_of (nat i)") auto
  have "is_digit c" using digits_of_all [of "nat i"] d by auto
  then show ?thesis using False d by (simp add: encode_int_def)
qed

lemma value_start_not: "value_start c \<Longrightarrow> \<not> json_ws c \<and> c \<noteq> CHR '']'' \<and> c \<noteq> CHR ''}''"
  by (auto simp: value_start_def json_ws_def is_digit_def dquote_def)

lemma dropWhile_replicate_append: "P x \<Longrightarrow> dropWhile P (replicate n x @ s) = dropWhile P s"
  by (induction n) simp_all

lemma skip_ws_nl: "skip_ws (nl l @ s) = skip_ws s"
  by (simp add: skip_ws_def nl_def newline_def json_ws_def dropWhile_replicate_append)

lemma skip_ws_id: "\<not> json_ws c \<Longrightarrow> skip_ws (c # s) = c # s"
  by (simp add: skip_ws_def)

lemma skip_ws_space: "skip_ws (CHR '' '' # s) = skip_ws s"
  by (simp add: skip_ws_def json_ws_def)

lemma encode_string_eq: "encode_string s @ rest = dquote # concat (map escape_char s) @ dquote # rest"
  by (simp add: encode_string_def)

lemma float_repr_hd: "\<exists>c cs. float_repr m e = c # cs \<and> is_digit c"
proof -
  obtain c cs where d: "digits_of m = c # cs"
    using digits_of_nonempty [of m] by (cases "digits_of m") auto
  have c: "is_digit c" using digits_of_all [of m] d by auto
  have "take k (c # cs) = c # take (k - 1) cs" if "0 < k" for k
    using that by (cases k) simp_all
  then show ?thesis using c by (auto simp: float_repr_def Let_def d not_digit_chars)
qed

lemma encode_float_hd:
  "\<exists>c cs. encode_float f = c # cs \<and> (c = CHR ''-'' \<or> is_digit c \<or> c = CHR ''N'' \<or> c = CHR ''I'')"
proof (cases f)
  case (Decimal s m e)
  then show ?thesis using float_repr_hd [of m e] by auto
qed auto

lemma encode_start: "\<exists>c cs. encode l v = c # cs \<and> value_start c"
proof (cases v)
  case (JInt i)
  then show ?thesis using encode_int_hd [of i] by (auto simp: value_start_def)
next
  case (JFloat f)
  then show ?thesis using encode_float_hd [of f] by (auto simp: value_start_def)
next
  case (JArr xs)
  then show ?thesis by (cases xs) (auto simp: value_start_def)
next
  case (JObj kvs)
  then show ?thesis by (cases kvs) (auto simp: value_start_def)
qed (auto simp: value_start_def encode_string_def)

lemma encode_elems_start: "xs \<noteq> [] \<Longrightarrow> \<exists>c cs. encode_elems l xs = c # cs \<and> value_start c"
proof (cases xs)
  case (Cons x xs')
  obtain c cs where "encode (Suc l) x = c # cs" "value_start c" using encode_start by blast
  then show ?thesis using Cons by simp
qed simp

lemma encode_members_start: "kvs \<noteq> [] \<Longrightarrow> \<exists>cs. encode_members l kvs = dquote # cs"
  by (cases kvs) (simp_all add: encode_string_def)

lemma parse_value_string:
  "parse_value (Suc n) (dquote # cs)
     = (case parse_string_body cs of None \<Rightarrow> None | Some (x, rest) \<Rightarrow> Some (JStr x, rest))"
  by simp

lemma parse_value_array:
  "parse_value (Suc n) (CHR ''['' # cs)
     = (case skip_ws cs of
          [] \<Rightarrow> None
        | d # ds \<Rightarrow>
            if d = CHR '']'' then Some (JArr [], ds)
            else (case parse_elems n (d # ds) of
                    None \<Rightarrow> None
                  | Some (xs, rest) \<Rightarrow> Some (JArr xs, rest)))"
  by (simp add: dquote_def)

lemma parse_value_object:
  "parse_value (Suc n) (CHR ''{'' # cs)
     = (case skip_ws cs of
          [] \<Rightarrow> None
        | d # ds \<Rightarrow>
            if d = CHR ''}'' then Some (JObj [], ds)
            else (case parse_members n (d # ds) of
                    None \<Rightarrow> None
                  | Some (kvs, rest) \<Rightarrow> Some (JObj (dict_of kvs), rest)))"
  by (simp add: dquote_def)

lemma parse_value_literals:
  "parse_value (Suc n) (''null'' @ rest) = Some (JNull, rest)"
  "parse_value (Suc n) (''true'' @ rest) = Some (JBool True, rest)"
  "parse_value (Suc n) (''false'' @ rest) = Some (JBool False, rest)"
  by (simp_all add: dquote_def)

lemma num_char_not:
  assumes "c = CHR ''-'' \<or> is_digit c \<or> c = CHR ''N'' \<or> c = CHR ''I''"
  shows "c \<noteq> dquote" "c \<noteq> CHR ''{''" "c \<noteq> CHR ''[''"
    "CHR ''n'' \<noteq> c" "CHR ''t'' \<noteq> c" "CHR ''f'' \<noteq> c"
  using assms by (auto simp: is_digit_def dquote_def)

lemma parse_value_number:
  assumes "c = CHR ''-'' \<or> is_digit c \<or> c = CHR ''N'' \<or> c = CHR ''I''"
  shows "parse_value (Suc n) (c # cs) = parse_numeric (c # cs)"
  using num_char_not [OF assms] by simp

lemma dict_of_distinct_aux:
  "distinct (map fst (acc @ kvs)) \<Longrightarrow>
     foldl (\<lambda>d kv. AList.update (fst kv) (snd kv) d) acc kvs = acc @ kvs"
proof (induction kvs arbitrary: acc)
  case Nil
  then show ?case by simp
next
  case (Cons kv kvs)
  have "fst kv \<notin> fst ` set acc" using Cons.prems by auto
  then have u: "AList.update (fst kv) (snd kv) acc = acc @ [kv]"
    by (induction acc) auto
  have "distinct (map fst ((acc @ [kv]) @ kvs))" using Cons.prems by simp
  then have "foldl (\<lambda>d kv. AList.update (fst kv) (snd kv) d) (acc @ [kv]) kvs = (acc @ [kv]) @ kvs"
    by (rule Cons.IH)
  then show ?case by (simp add: u)
qed

lemma dict_of_distinct: "distinct (map fst kvs) \<Longrightarrow> dict_of kvs = kvs"
  using dict_of_distinct_aux [of "[]" kvs] by (simp add: dict_of_def)

lemma parse_elems_step:
  assumes "parse_value (Suc n) s = Some (x, rest1)"
  shows "parse_elems (Suc n) s =
     (case skip_ws rest1 of
        [] \<Rightarrow> None
      | d # ds \<Rightarrow>
          if d = CHR '']'' then Some ([x], ds)
          else if d = CHR '','' then
            (case parse_elems n (skip_ws ds) of
               None \<Rightarrow> None
             | Some (xs, rest') \<Rightarrow> Some (x # xs, rest'))
          else None)"
  by (simp only: parse_elems.simps assms option.case prod.case)

lemma parse_members_step:
  assumes "parse_string_body s1 = Some (k, s2)" "skip_ws s2 = CHR '':'' # s3"
    and "parse_value (Suc n) (skip_ws s3) = Some (v, s4)"
  shows "parse_members (Suc n) (dquote # s1) =
     (case skip_ws s4 of
        [] \<Rightarrow> None
      | d # s5 \<Rightarrow>
          if d = CHR ''}'' then Some ([(k, v)], s5)
          else if d = CHR '','' then
            (case parse_members n (skip_ws s5) of
               None \<Rightarrow> None
             | Some (kvs, s6) \<Rightarrow> Some ((k, v) # kvs, s6))
          else None)"
  by (simp only: parse_members.simps assms option.case prod.case list.case
      if_False if_True not_not simp_thms)

lemma delim_simps:
  "delim (nl l @ s)" "delim (CHR '','' # s)"
  by (simp_all add: delim_def nl_def)

lemma ws_chars:
  "\<not> json_ws CHR '']''" "\<not> json_ws CHR ''}''" "\<not> json_ws CHR '',''" "\<not> json_ws CHR '':''"
  "\<not> json_ws dquote"
  by (simp_all add: json_ws_def dquote_def)

lemma skip_ws_start: "value_start c \<Longrightarrow> skip_ws (c # s) = c # s"
  using value_start_not [of c] by (simp add: skip_ws_id)

lemma parse_encode:
  "wf_json v \<Longrightarrow> delim rest \<Longrightarrow> length (encode l v) + length rest < n \<Longrightarrow>
     parse_value n (encode l v @ rest) = Some (v, rest)"
  "list_all wf_json xs \<Longrightarrow> xs \<noteq> [] \<Longrightarrow> length (encode_elems l xs) + length rest < n \<Longrightarrow>
     parse_elems n (encode_elems l xs @ rest) = Some (xs, rest)"
  "list_all (\<lambda>kv. wf_ustring (fst kv) \<and> wf_json (snd kv)) kvs \<Longrightarrow> kvs \<noteq> [] \<Longrightarrow>
     length (encode_members l kvs) + length rest < n \<Longrightarrow>
     parse_members n (encode_members l kvs @ rest) = Some (kvs, rest)"
proof (induction l v and l xs and l kvs arbitrary: n rest and n rest and n rest
    rule: encode_encode_elems_encode_members.induct)
  case (1 l)
  then obtain n' where n: "n = Suc n'" by (cases n) auto
  show ?case unfolding n encode.simps by (rule parse_value_literals)
next
  case (2 l b)
  then obtain n' where n: "n = Suc n'" by (cases n) auto
  show ?case unfolding n by (cases b) (simp_all only: encode.simps if_True if_False parse_value_literals)
next
  case (3 l i)
  then obtain n' where n: "n = Suc n'" by (cases n) auto
  obtain c cs where e: "encode_int i = c # cs"
    and c: "c = CHR ''-'' \<or> is_digit c \<or> c = CHR ''N'' \<or> c = CHR ''I''"
    using encode_int_hd by blast
  have "parse_value (Suc n') (c # (cs @ rest)) = parse_numeric (c # (cs @ rest))"
    using c by (rule parse_value_number)
  also have "c # (cs @ rest) = encode_int i @ rest" by (simp add: e)
  finally have "parse_value (Suc n') (encode_int i @ rest) = parse_numeric (encode_int i @ rest)" .
  then show ?case unfolding n encode.simps using parse_numeric_encode_int [OF "3.prems"(2)] by simp
next
  case (4 l f)
  then obtain n' where n: "n = Suc n'" by (cases n) auto
  obtain c cs where e: "encode_float f = c # cs"
    and c: "c = CHR ''-'' \<or> is_digit c \<or> c = CHR ''N'' \<or> c = CHR ''I''"
    using encode_float_hd by blast
  have "parse_value (Suc n') (c # (cs @ rest)) = parse_numeric (c # (cs @ rest))"
    using c by (rule parse_value_number)
  also have "c # (cs @ rest) = encode_float f @ rest" by (simp add: e)
  finally have "parse_value (Suc n') (encode_float f @ rest) = parse_numeric (encode_float f @ rest)" .
  then show ?case
    unfolding n encode.simps using parse_numeric_encode_float [OF "4.prems"(2)] "4.prems"(1) by simp
next
  case (5 l s)
  then obtain n' where n: "n = Suc n'" by (cases n) auto
  have w: "wf_ustring s" using "5.prems"(1) by simp
  show ?case
    unfolding n encode.simps encode_string_eq parse_value_string parse_string_body_encode [OF w]
    by simp
next
  case (6 l)
  then obtain n' where n: "n = Suc n'" by (cases n) auto
  have "parse_value (Suc n') (CHR ''['' # CHR '']'' # rest) = Some (JArr [], rest)"
    unfolding parse_value_array skip_ws_id [OF ws_chars(1)] by simp
  then show ?case unfolding n by simp
next
  case (7 l x xs)
  then obtain n' where n: "n = Suc n'" by (cases n) auto
  obtain c cs where e: "encode_elems l (x # xs) = c # cs" and c: "value_start c"
    using encode_elems_start [of "x # xs" l] by blast
  have w: "list_all wf_json (x # xs)" using "7.prems"(1) by simp
  have len: "length (encode_elems l (x # xs)) + length rest < n'"
    using "7.prems"(3) unfolding n by (simp add: nl_def)
  have p: "parse_elems n' (encode_elems l (x # xs) @ rest) = Some (x # xs, rest)"
    using w len by (intro "7.IH") simp_all
  have s: "skip_ws (nl (Suc l) @ encode_elems l (x # xs) @ rest) = c # (cs @ rest)"
    unfolding skip_ws_nl e using skip_ws_start [OF c] by simp
  have ne: "c \<noteq> CHR '']''" using value_start_not [OF c] by simp
  have "parse_value (Suc n') (CHR ''['' # nl (Suc l) @ encode_elems l (x # xs) @ rest)
      = Some (JArr (x # xs), rest)"
    unfolding parse_value_array s using ne p unfolding e by simp
  then show ?case unfolding n by simp
next
  case (8 l)
  then obtain n' where n: "n = Suc n'" by (cases n) auto
  have "parse_value (Suc n') (CHR ''{'' # CHR ''}'' # rest) = Some (JObj [], rest)"
    unfolding parse_value_object skip_ws_id [OF ws_chars(2)] by simp
  then show ?case unfolding n by simp
next
  case (9 l kv kvs)
  then obtain n' where n: "n = Suc n'" by (cases n) auto
  obtain cs where e: "encode_members l (kv # kvs) = dquote # cs"
    using encode_members_start [of "kv # kvs" l] by blast
  have w: "list_all (\<lambda>kv. wf_ustring (fst kv) \<and> wf_json (snd kv)) (kv # kvs)" and d: "distinct (map fst (kv # kvs))"
    using "9.prems"(1) by simp_all
  have len: "length (encode_members l (kv # kvs)) + length rest < n'"
    using "9.prems"(3) unfolding n by (simp add: nl_def)
  have p: "parse_members n' (encode_members l (kv # kvs) @ rest) = Some (kv # kvs, rest)"
    using w len by (intro "9.IH") simp_all
  have s: "skip_ws (nl (Suc l) @ encode_members l (kv # kvs) @ rest) = dquote # (cs @ rest)"
    unfolding skip_ws_nl e using skip_ws_id [OF ws_chars(5)] by simp
  have ne: "dquote \<noteq> CHR ''}''" by (simp add: dquote_def)
  have "parse_value (Suc n') (CHR ''{'' # nl (Suc l) @ encode_members l (kv # kvs) @ rest)
      = Some (JObj (kv # kvs), rest)"
    unfolding parse_value_object s using ne p dict_of_distinct [OF d] unfolding e by simp
  then show ?case unfolding n by simp
next
  case (10 l)
  then show ?case by simp
next
  case (11 l x xs)
  then obtain n' where n: "n = Suc n'" by (cases n) auto
  define tail where "tail = (if xs = [] then [] else CHR '','' # nl (Suc l)) @ encode_elems l xs @ rest"
  have split: "encode_elems l (x # xs) @ rest = encode (Suc l) x @ tail"
    by (simp add: tail_def)
  have dt: "delim tail" by (cases xs) (simp_all add: tail_def delim_simps)
  have wx: "wf_json x" and wxs: "list_all wf_json xs" using "11.prems"(1) by simp_all
  have len: "length (encode (Suc l) x) + length tail < Suc n'"
    using "11.prems"(3) arg_cong [OF split, of length] unfolding n by simp
  have pv: "parse_value (Suc n') (encode (Suc l) x @ tail) = Some (x, tail)"
    using wx dt len by (rule "11.IH"(1))
  show ?case
  proof (cases "xs = []")
    case True
    then have st: "skip_ws tail = CHR '']'' # rest"
      by (simp add: tail_def skip_ws_nl skip_ws_id [OF ws_chars(1)])
    show ?thesis unfolding n split parse_elems_step [OF pv] st using True by simp
  next
    case False
    then have st: "skip_ws tail = CHR '','' # nl (Suc l) @ encode_elems l xs @ rest"
      by (simp add: tail_def skip_ws_id [OF ws_chars(3)])
    obtain c cs where e: "encode_elems l xs = c # cs" and c: "value_start c"
      using encode_elems_start [OF False, of l] by blast
    have s2: "skip_ws (nl (Suc l) @ encode_elems l xs @ rest) = encode_elems l xs @ rest"
      unfolding skip_ws_nl e using skip_ws_start [OF c] by simp
    have len2: "length (encode_elems l xs) + length rest < n'"
      using len False by (simp add: tail_def)
    have pe: "parse_elems n' (encode_elems l xs @ rest) = Some (xs, rest)"
      using wxs False len2 by (rule "11.IH"(2))
    show ?thesis unfolding n split parse_elems_step [OF pv] st by (simp add: s2 pe)
  qed
next
  case (12 l)
  then show ?case by simp
next
  case (13 l kv kvs)
  then obtain n' where n: "n = Suc n'" by (cases n) auto
  define tail where "tail = (if kvs = [] then [] else CHR '','' # nl (Suc l)) @ encode_members l kvs @ rest"
  define s2 where "s2 = CHR '':'' # CHR '' '' # encode (Suc l) (snd kv) @ tail"
  define s1 where "s1 = concat (map escape_char (fst kv)) @ dquote # s2"
  have split: "encode_members l (kv # kvs) @ rest = dquote # s1"
    by (simp add: tail_def s1_def s2_def encode_string_def)
  have dt: "delim tail" by (cases kvs) (simp_all add: tail_def delim_simps)
  have wk: "wf_ustring (fst kv)" and wv: "wf_json (snd kv)"
    and wkvs: "list_all (\<lambda>kv. wf_ustring (fst kv) \<and> wf_json (snd kv)) kvs"
    using "13.prems"(1) by simp_all
  have len: "length (encode (Suc l) (snd kv)) + length tail < Suc n'"
    using "13.prems"(3) arg_cong [OF split, of length] unfolding n by (simp add: s1_def s2_def)
  have pv: "parse_value (Suc n') (encode (Suc l) (snd kv) @ tail) = Some (snd kv, tail)"
    using wv dt len by (rule "13.IH"(1))
  have ps: "parse_string_body s1 = Some (fst kv, s2)"
    unfolding s1_def using wk by (rule parse_string_body_encode)
  have sk: "skip_ws s2 = CHR '':'' # CHR '' '' # encode (Suc l) (snd kv) @ tail"
    unfolding s2_def by (rule skip_ws_id [OF ws_chars(4)])
  obtain c cs where e: "encode (Suc l) (snd kv) = c # cs" and c: "value_start c"
    using encode_start by blast
  have sk3: "skip_ws (CHR '' '' # encode (Suc l) (snd kv) @ tail) = encode (Suc l) (snd kv) @ tail"
    unfolding skip_ws_space e using skip_ws_start [OF c] by simp
  have pv': "parse_value (Suc n') (skip_ws (CHR '' '' # encode (Suc l) (snd kv) @ tail))
      = Some (snd kv, tail)"
    unfolding sk3 by (rule pv)
  note step = parse_members_step [OF ps sk pv']
  show ?case
  proof (cases "kvs = []")
    case True
    then have st: "skip_ws tail = CHR ''}'' # rest"
      by (simp add: tail_def skip_ws_nl skip_ws_id [OF ws_chars(2)])
    show ?thesis unfolding n split step st using True by simp
  next
    case False
    then have st: "skip_ws tail = CHR '','' # nl (Suc l) @ encode_members l kvs @ rest"
      by (simp add: tail_def skip_ws_id [OF ws_chars(3)])
    obtain cs' where e': "encode_members l kvs = dquote # cs'"
      using encode_members_start [OF False, of l] by blast
    have s2': "skip_ws (nl (Suc l) @ encode_members l kvs @ rest) = encode_members l kvs @ rest"
      unfolding skip_ws_nl e' using skip_ws_id [OF ws_chars(5)] by simp
    have len2: "length (encode_members l kvs) + length rest < n'"
      using len False by (simp add: tail_def)
    have pe: "parse_members n' (encode_members l kvs @ rest) = Some (kvs, rest)"
      using wkvs False len2 by (rule "13.IH"(2))
    show ?thesis unfolding n split step st by (simp add: s2' pe)
  qed
qed

lemma json_loads_dumps: "wf_json v \<Longrightarrow> json_loads (json_dumps v) = Some v"
proof -
  assume w: "wf_json v"
  obtain c cs where e: "encode 0 v = c # cs" and c: "value_start c" using encode_start by blast
  have s: "skip_ws (encode 0 v) = encode 0 v" unfolding e using c by (rule skip_ws_start)
  have "parse_value (Suc (length (encode 0 v))) (encode 0 v @ []) = Some (v, [])"
    using w by (intro parse_encode(1)) (simp_all add: delim_def)
  then have pv: "parse_value (Suc (length (encode 0 v))) (encode 0 v) = Some (v, [])"
    by (simp only: append_Nil2)
  show ?thesis unfolding json_loads_def json_dumps_def s pv by (simp add: skip_ws_def)
qed

lemma update_set: "x \<in> set (AList.update k v al) \<Longrightarrow> x = (k, v) \<or> x \<in> set al"
  by (induction al) (auto split: if_splits)

lemma dict_of_wf_aux:
  "distinct (map fst acc) \<Longrightarrow> list_all (\<lambda>kv. wf_ustring (fst kv) \<and> wf_json (snd kv)) acc \<Longrightarrow>
   list_all (\<lambda>kv. wf_ustring (fst kv) \<and> wf_json (snd kv)) kvs \<Longrightarrow>
   distinct (map fst (foldl (\<lambda>d kv. AList.update (fst kv) (snd kv) d) acc kvs))
   \<and> list_all (\<lambda>kv. wf_ustring (fst kv) \<and> wf_json (snd kv)) (foldl (\<lambda>d kv. AList.update (fst kv) (snd kv) d) acc kvs)"
proof (induction kvs arbitrary: acc)
  case Nil
  then show ?case by simp
next
  case (Cons kv kvs)
  have d: "distinct (map fst (AList.update (fst kv) (snd kv) acc))"
    using Cons.prems(1) by (rule distinct_update)
  have w: "list_all (\<lambda>kv. wf_ustring (fst kv) \<and> wf_json (snd kv)) (AList.update (fst kv) (snd kv) acc)"
    unfolding list_all_iff
  proof
    fix x assume "x \<in> set (AList.update (fst kv) (snd kv) acc)"
    then have "x = (fst kv, snd kv) \<or> x \<in> set acc" by (rule update_set)
    then show "wf_ustring (fst x) \<and> wf_json (snd x)"
      using Cons.prems(2,3) by (auto simp: list_all_iff)
  qed
  have "list_all (\<lambda>kv. wf_ustring (fst kv) \<and> wf_json (snd kv)) kvs" using Cons.prems(3) by simp
  from Cons.IH [OF d w this] show ?case by simp
qed

lemma dict_of_wf: "list_all (\<lambda>kv. wf_ustring (fst kv) \<and> wf_json (snd kv)) kvs \<Longrightarrow> wf_json (JObj (dict_of kvs))"
  using dict_of_wf_aux [of "[]" kvs] by (simp add: dict_of_def)

lemma parse_number_wf: "parse_number s = Some (v, r) \<Longrightarrow> wf_json v"
  using float_of_literal_wf
  by (auto simp: parse_number_def Let_def split: list.splits option.splits if_splits prod.splits)

lemma parse_numeric_wf: "parse_numeric s = Some (v, r) \<Longrightarrow> wf_json v"
  using parse_number_wf by (auto simp: parse_numeric_def split: option.splits if_splits)

lemma parse_value_wf_step:
  assumes e': "\<forall>s xs r. parse_elems n s = Some (xs, r) \<longrightarrow> list_all wf_json xs"
    and m': "\<forall>s kvs r. parse_members n s = Some (kvs, r) \<longrightarrow> list_all (\<lambda>kv. wf_ustring (fst kv) \<and> wf_json (snd kv)) kvs"
    and p: "parse_value (Suc n) s = Some (v, r)"
  shows "wf_json v"
proof (cases s)
  case Nil
  with p show ?thesis by simp
next
  case (Cons c cs)
  consider (str) "c = dquote" | (obj) "c \<noteq> dquote" "c = CHR ''{''"
    | (arr) "c \<noteq> dquote" "c \<noteq> CHR ''{''" "c = CHR ''[''"
    | (other) "c \<noteq> dquote" "c \<noteq> CHR ''{''" "c \<noteq> CHR ''[''" by blast
  then show ?thesis
  proof cases
    case str
    with p Cons show ?thesis using parse_string_body_wf by (auto split: option.splits)
  next
    case obj
    with p Cons have "(case skip_ws cs of
          [] \<Rightarrow> None
        | d # ds \<Rightarrow>
            if d = CHR ''}'' then Some (JObj [], ds)
            else (case parse_members n (d # ds) of
                    None \<Rightarrow> None
                  | Some (kvs, rest) \<Rightarrow> Some (JObj (dict_of kvs), rest))) = Some (v, r)"
      by (simp only: parse_value_object)
    then show ?thesis
      using m' [rule_format] dict_of_wf by (auto split: list.splits if_splits option.splits)
  next
    case arr
    with p Cons have "(case skip_ws cs of
          [] \<Rightarrow> None
        | d # ds \<Rightarrow>
            if d = CHR '']'' then Some (JArr [], ds)
            else (case parse_elems n (d # ds) of
                    None \<Rightarrow> None
                  | Some (xs, rest) \<Rightarrow> Some (JArr xs, rest))) = Some (v, r)"
      by (simp only: parse_value_array)
    then show ?thesis
      using e' [rule_format] by (auto split: list.splits if_splits option.splits)
  next
    case other
    with p Cons have "(if prefix ''null'' s then Some (JNull, drop 4 s)
          else if prefix ''true'' s then Some (JBool True, drop 4 s)
          else if prefix ''false'' s then Some (JBool False, drop 5 s)
          else parse_numeric s) = Some (v, r)"
      by (simp only: parse_value.simps list.case if_False)
    then show ?thesis using parse_numeric_wf by (auto split: if_splits)
  qed
qed

lemma parse_elems_wf_step:
  assumes v': "\<forall>s v r. parse_value (Suc n) s = Some (v, r) \<longrightarrow> wf_json v"
    and e': "\<forall>s xs r. parse_elems n s = Some (xs, r) \<longrightarrow> list_all wf_json xs"
    and p: "parse_elems (Suc n) s = Some (xs, r)"
  shows "list_all wf_json xs"
proof (cases "parse_value (Suc n) s")
  case None
  with p show ?thesis by (simp only: parse_elems.simps option.case) simp
next
  case (Some a)
  obtain x rest1 where a: "a = (x, rest1)" by (cases a)
  have pv: "parse_value (Suc n) s = Some (x, rest1)" using Some a by simp
  have wx: "wf_json x" using pv by (rule v' [rule_format])
  from p show ?thesis
    unfolding parse_elems_step [OF pv]
    using wx e' [rule_format] by (auto split: list.splits if_splits option.splits)
qed

lemma parse_members_wf_step:
  assumes v': "\<forall>s v r. parse_value (Suc n) s = Some (v, r) \<longrightarrow> wf_json v"
    and m': "\<forall>s kvs r. parse_members n s = Some (kvs, r) \<longrightarrow> list_all (\<lambda>kv. wf_ustring (fst kv) \<and> wf_json (snd kv)) kvs"
    and p: "parse_members (Suc n) s = Some (kvs, r)"
  shows "list_all (\<lambda>kv. wf_ustring (fst kv) \<and> wf_json (snd kv)) kvs"
proof -
  note v = v' [rule_format] and m = m' [rule_format]
  from p obtain s1 where s: "s = dquote # s1"
    by (cases s) (auto simp only: parse_members.simps list.case split: if_splits)
  from p s obtain k s2 where ps: "parse_string_body s1 = Some (k, s2)"
    by (cases "parse_string_body s1") (auto simp only: parse_members.simps list.case option.case split: if_splits)
  from p s ps obtain s3 where sk: "skip_ws s2 = CHR '':'' # s3"
    by (cases "skip_ws s2")
      (auto simp only: parse_members.simps list.case option.case prod.case split: if_splits)
  from p s ps sk obtain x s4 where pv: "parse_value (Suc n) (skip_ws s3) = Some (x, s4)"
    by (cases "parse_value (Suc n) (skip_ws s3)")
      (auto simp only: parse_members.simps list.case option.case prod.case split: if_splits)
  have wx: "wf_json x" using pv by (rule v)
  have wk: "wf_ustring k" using ps by (rule parse_string_body_wf)
  from p show ?thesis
    unfolding s parse_members_step [OF ps sk pv]
    using wx wk m by (auto split: list.splits if_splits option.splits)
qed

lemma parse_wf:
  "(\<forall>s v r. parse_value n s = Some (v, r) \<longrightarrow> wf_json v)
   \<and> (\<forall>s xs r. parse_elems n s = Some (xs, r) \<longrightarrow> list_all wf_json xs)
   \<and> (\<forall>s kvs r. parse_members n s = Some (kvs, r) \<longrightarrow> list_all (\<lambda>kv. wf_ustring (fst kv) \<and> wf_json (snd kv)) kvs)"
proof (induction n)
  case 0
  show ?case by simp
next
  case (Suc n)
  then have e: "\<forall>s xs r. parse_elems n s = Some (xs, r) \<longrightarrow> list_all wf_json xs"
    and m: "\<forall>s kvs r. parse_members n s = Some (kvs, r) \<longrightarrow> list_all (\<lambda>kv. wf_ustring (fst kv) \<and> wf_json (snd kv)) kvs"
    by simp_all
  have v: "\<forall>s v r. parse_value (Suc n) s = Some (v, r) \<longrightarrow> wf_json v"
    by (intro allI impI) (rule parse_value_wf_step [OF e m])
  have e': "\<forall>s xs r. parse_elems (Suc n) s = Some (xs, r) \<longrightarrow> list_all wf_json xs"
    by (intro allI impI) (rule parse_elems_wf_step [OF v e])
  have m': "\<forall>s kvs r. parse_members (Suc n) s = Some (kvs, r)
      \<longrightarrow> list_all (\<lambda>kv. wf_ustring (fst kv) \<and> wf_json (snd kv)) kvs"
    by (intro allI impI) (rule parse_members_wf_step [OF v m])
  show ?case by (intro conjI v e' m')
qed

lemma json_loads_wf:
  assumes "json_loads s = Some v"
  shows "wf_json v"
proof (cases "parse_value (Suc (length s)) (skip_ws s)")
  case None
  with assms show ?thesis unfolding json_loads_def by (simp only: option.case) simp
next
  case (Some a)
  obtain x r where a: "a = (x, r)" by (cases a)
  have pv: "parse_value (Suc (length s)) (skip_ws s) = Some (x, r)" using Some a by simp
  have "wf_json x" using parse_wf [of "Suc (length s)"] pv by blast
  moreover have "x = v"
    using assms unfolding json_loads_def pv by (auto split: if_splits)
  ultimately show ?thesis by simp
qed



subsection \<open>Metadata records are read back as written\<close>

lemma parent_metadata_file: "path_parent METADATA_FILE = STORAGE_DIR"
  by code_simp

lemma metadata_file_not_storage: "METADATA_FILE \<noteq> STORAGE_DIR"
  by code_simp

lemma load_metadata_wf: "wf_json (load_metadata fs)"
  by (auto simp: load_metadata_def json_loads_wf split: sum.splits option.splits)

lemma save_metadata_ok:
  assumes "node_at fs STORAGE_DIR = Some Dir" "node_at fs METADATA_FILE \<noteq> Some Dir"
  shows "save_metadata md now fs = Inr (AList.update METADATA_FILE (File (json_dumps md) now) fs)"
  using assms
  by (auto simp: save_metadata_def write_file_def parent_metadata_file resolve_metadata_file
      split: option.splits node.splits)

lemma node_at_after_save:
  "node_at (AList.update METADATA_FILE (File d now) fs) p
     = (if resolve p = METADATA_FILE then Some (File d now) else node_at fs p)"
  by (simp add: node_at_def update_conv')

lemma load_after_save:
  assumes "wf_json md"
  shows "load_metadata (AList.update METADATA_FILE (File (json_dumps md) now) fs) = md"
  by (simp add: load_metadata_def read_text_def node_at_after_save resolve_metadata_file
      json_loads_dumps [OF assms])

lemma store_ok_after_save:
  assumes "node_at fs STORAGE_DIR = Some Dir" "wf_json md" "is_dict md"
  shows "store_ok (AList.update METADATA_FILE (File (json_dumps md) now) fs)"
  using assms metadata_file_not_storage
  by (simp add: store_ok_def node_at_after_save load_after_save resolve_storage resolve_metadata_file)

lemma wf_setitem:
  assumes "wf_json (JObj kvs)" "wf_json v" "wf_ustring k"
  shows "wf_json (JObj (AList.update k v kvs))"
proof -
  have "distinct (map fst (AList.update k v kvs))" using assms(1) by (simp add: distinct_update)
  moreover have "list_all (\<lambda>kv. wf_ustring (fst kv) \<and> wf_json (snd kv)) (AList.update k v kvs)"
    unfolding list_all_iff
  proof
    fix x assume "x \<in> set (AList.update k v kvs)"
    then have "x = (k, v) \<or> x \<in> set kvs" by (rule update_set)
    then show "wf_ustring (fst x) \<and> wf_json (snd x)" using assms by (auto simp: list_all_iff)
  qed
  ultimately show ?thesis by simp
qed

lemma is_dict_cases: "is_dict v \<Longrightarrow> \<exists>kvs. v = JObj kvs"
  by (cases v) simp_all

text \<open>The effect of a metadata POST on a store in order.\<close>

lemma metadata_post_effect:
  assumes "store_ok fs" "json_loads body = Some obj" "is_dict obj"
  shows "\<exists>kvs fs'. load_metadata fs = JObj kvs
     \<and> metadata_post fs now name body = (Inr (MetadataUpdated (secure_filename name)), fs')
     \<and> load_metadata fs' = JObj (AList.update (ustr (secure_filename name)) obj kvs)
     \<and> store_ok fs'"
proof -
  from assms(1) have d: "node_at fs STORAGE_DIR = Some Dir" "node_at fs METADATA_FILE \<noteq> Some Dir"
    and "is_dict (load_metadata fs)" by (simp_all add: store_ok_def)
  then obtain kvs where kvs: "load_metadata fs = JObj kvs" using is_dict_cases by blast
  let ?md = "JObj (AList.update (ustr (secure_filename name)) obj kvs)"
  let ?fs = "AList.update METADATA_FILE (File (json_dumps ?md) now) fs"
  have wkvs: "wf_json (JObj kvs)" using load_metadata_wf [of fs] kvs by simp
  have wobj: "wf_json obj" using assms(2) by (rule json_loads_wf)
  have w: "wf_json ?md" using wkvs wobj wf_ustr by (rule wf_setitem)
  have p: "metadata_post fs now name body = (Inr (MetadataUpdated (secure_filename name)), ?fs)"
    by (simp add: metadata_post_def metadata_post_write_def Let_def kvs assms(2,3)
        save_metadata_ok [OF d])
  have l: "load_metadata ?fs = ?md" using w by (rule load_after_save)
  have s: "store_ok ?fs" using d(1) w by (rule store_ok_after_save) simp
  show ?thesis using kvs p l s by blast
qed

lemma metadata_get_dict:
  "load_metadata fs = JObj kvs \<Longrightarrow>
     metadata_get fs name
       = Inr (Record (case map_of kvs (ustr (secure_filename name)) of None \<Rightarrow> JObj [] | Some r \<Rightarrow> r))"
  by (simp add: metadata_get_def)

text \<open>
  On a store in order, for every name and every body that is a JSON object, the empty
  object included, the metadata POST succeeds and a metadata GET of the same name on the
  resulting file system returns exactly that object; the store is in order again.
\<close>

lemma set_then_get_record:
  assumes "store_ok fs" and "json_loads body = Some obj" and "is_dict obj"
  shows "\<exists>fs'. metadata_post fs now name body = (Inr (MetadataUpdated (secure_filename name)), fs')
     \<and> metadata_get fs' name = Inr (Record obj)
     \<and> store_ok fs'"
proof -
  from metadata_post_effect [OF assms, of now name] obtain kvs fs' where
    p: "metadata_post fs now name body = (Inr (MetadataUpdated (secure_filename name)), fs')"
    and l: "load_metadata fs' = JObj (AList.update (ustr (secure_filename name)) obj kvs)"
    and s: "store_ok fs'" by blast
  have "metadata_get fs' name = Inr (Record obj)"
    by (simp add: metadata_get_dict [OF l] update_conv')
  with p s show ?thesis by blast
qed

lemma set_then_get_record_float:
  \<open>json_loads ''{"tag": "final", "size": 1.5, "ratio": -2.5e-7}''
     = Some (JObj [(ustr ''tag'', JStr (ustr ''final'')), (ustr ''size'', JFloat (Decimal False 15 (- 1))),
                   (ustr ''ratio'', JFloat (Decimal True 25 (- 8)))])
   \<and> metadata_get (snd (metadata_post fs_fresh 8 ''report.pdf''
                           ''{"tag": "final", "size": 1.5, "ratio": -2.5e-7}'')) ''report.pdf''
     = Inr (Record (JObj [(ustr ''tag'', JStr (ustr ''final'')), (ustr ''size'', JFloat (Decimal False 15 (- 1))),
                          (ustr ''ratio'', JFloat (Decimal True 25 (- 8)))]))\<close>
  by code_simp

subsection \<open>Metadata writes one after the other, and overlapping\<close>

lemma run_serial_ab:
  "run_schedule now (a, x) (b, y) [True, True, False, False] (Waiting, Waiting, fs)
     = (Finished (fst (metadata_post fs now a x)),
        Finished (fst (metadata_post (snd (metadata_post fs now a x)) now b y)),
        snd (metadata_post (snd (metadata_post fs now a x)) now b y))"
  by (simp add: metadata_post_def split: prod.splits)

lemma run_serial_ba:
  "run_schedule now (a, x) (b, y) [False, False, True, True] (Waiting, Waiting, fs)
     = (Finished (fst (metadata_post (snd (metadata_post fs now b y)) now a x)),
        Finished (fst (metadata_post fs now b y)),
        snd (metadata_post (snd (metadata_post fs now b y)) now a x))"
  by (simp add: metadata_post_def split: prod.splits)

lemma two_posts:
  assumes "store_ok fs" "json_loads x = Some ox" "is_dict ox" "json_loads y = Some oy" "is_dict oy"
    and "secure_filename a \<noteq> secure_filename b"
  shows "fst (metadata_post fs now a x) = Inr (MetadataUpdated (secure_filename a))
     \<and> fst (metadata_post (snd (metadata_post fs now a x)) now b y)
         = Inr (MetadataUpdated (secure_filename b))
     \<and> metadata_get (snd (metadata_post (snd (metadata_post fs now a x)) now b y)) a
         = Inr (Record ox)
     \<and> metadata_get (snd (metadata_post (snd (metadata_post fs now a x)) now b y)) b
         = Inr (Record oy)"
proof -
  from metadata_post_effect [OF assms(1,2,3), of now a] obtain kvs fs1 where
    p1: "metadata_post fs now a x = (Inr (MetadataUpdated (secure_filename a)), fs1)"
    and l1: "load_metadata fs1 = JObj (AList.update (ustr (secure_filename a)) ox kvs)"
    and s1: "store_ok fs1" by blast
  from metadata_post_effect [OF s1 assms(4,5), of now b] obtain kvs1 fs2 where
    k1: "load_metadata fs1 = JObj kvs1"
    and p2: "metadata_post fs1 now b y = (Inr (MetadataUpdated (secure_filename b)), fs2)"
    and l2: "load_metadata fs2 = JObj (AList.update (ustr (secure_filename b)) oy kvs1)" by blast
  have kvs1: "kvs1 = AList.update (ustr (secure_filename a)) ox kvs" using l1 k1 by simp
  have ga: "metadata_get fs2 a = Inr (Record ox)"
    using assms(6) by (simp add: metadata_get_dict [OF l2] kvs1 update_conv' ustr_inj)
  have gb: "metadata_get fs2 b = Inr (Record oy)"
    by (simp add: metadata_get_dict [OF l2] update_conv')
  show ?thesis using p1 p2 ga gb by simp
qed

text \<open>
  Claim C9, as amended. The route takes no lock. On a store in order (the storage root is
  a directory, the document is no directory and loads as an object, which includes a
  missing or unreadable document), when two metadata POSTs whose bodies are JSON objects,
  for names that differ after sanitization, run one after the other, in either order,
  both succeed and both records are read back afterwards.
\<close>

theorem serial_posts_both_persist:
  assumes "store_ok fs"
    and "json_loads x = Some ox" and "is_dict ox"
    and "json_loads y = Some oy" and "is_dict oy"
    and "secure_filename a \<noteq> secure_filename b"
    and "sched = [True, True, False, False] \<or> sched = [False, False, True, True]"
  shows "\<exists>fs'. run_schedule now (a, x) (b, y) sched (Waiting, Waiting, fs)
        = (Finished (Inr (MetadataUpdated (secure_filename a))),
           Finished (Inr (MetadataUpdated (secure_filename b))), fs')
     \<and> metadata_get fs' a = Inr (Record ox)
     \<and> metadata_get fs' b = Inr (Record oy)"
proof -
  from assms(7) show ?thesis
  proof
    assume s: "sched = [True, True, False, False]"
    show ?thesis unfolding s run_serial_ab
      using two_posts [OF assms(1,2,3,4,5,6), of now] by simp
  next
    assume s: "sched = [False, False, True, True]"
    show ?thesis unfolding s run_serial_ba
      using two_posts [OF assms(1,4,5,2,3) assms(6) [symmetric], of now] by simp
  qed
qed

theorem serial_posts_both_persist_witness:
  "store_ok fs_fresh
   \<and> json_loads (snd req_a) = Some (JObj [(ustr ''k'', JInt 1)]) \<and> is_dict (JObj [(ustr ''k'', JInt 1)])
   \<and> json_loads (snd req_b) = Some (JObj [(ustr ''k'', JInt 2)]) \<and> is_dict (JObj [(ustr ''k'', JInt 2)])
   \<and> secure_filename ''a.txt'' \<noteq> secure_filename ''b.txt''
   \<and> (\<exists>fs'. run_schedule 7 (''a.txt'', snd req_a) (''b.txt'', snd req_b) [False, False, True, True]
               (Waiting, Waiting, fs_fresh)
             = (Finished (Inr (MetadataUpdated (secure_filename ''a.txt''))),
                Finished (Inr (MetadataUpdated (secure_filename ''b.txt''))), fs')
        \<and> metadata_get fs' ''a.txt'' = Inr (Record (JObj [(ustr ''k'', JInt 1)]))
        \<and> metadata_get fs' ''b.txt'' = Inr (Record (JObj [(ustr ''k'', JInt 2)])))"
proof -
  have s: "store_ok fs_fresh" by code_simp
  have la: "json_loads (snd req_a) = Some (JObj [(ustr ''k'', JInt 1)])" by code_simp
  have lb: "json_loads (snd req_b) = Some (JObj [(ustr ''k'', JInt 2)])" by code_simp
  have da: "is_dict (JObj [(ustr ''k'', JInt 1)])" and db: "is_dict (JObj [(ustr ''k'', JInt 2)])" by simp_all
  have ne: "secure_filename ''a.txt'' \<noteq> secure_filename ''b.txt''" by code_simp
  have sc: "[False, False, True, True] = [True, True, False, False]
      \<or> [False, False, True, True] = [False, False, True, True]" by simp
  note t = serial_posts_both_persist [OF s la da lb db ne sc, of 7]
  show ?thesis by (intro conjI s la da lb db ne t)
qed

text \<open>
  Claim C9, as stated, fails: when both requests read the document before either writes
  it, both answer with success, and the record written first is gone.
\<close>

theorem overlapping_posts_lose_update:
  "fst overlapped = Finished (Inr (MetadataUpdated ''a.txt''))
   \<and> fst (snd overlapped) = Finished (Inr (MetadataUpdated ''b.txt''))
   \<and> metadata_get (snd (snd overlapped)) ''b.txt'' = Inr (Record (JObj [(ustr ''k'', JInt 2)]))
   \<and> metadata_get (snd (snd overlapped)) ''a.txt'' = Inr (Record (JObj []))
   \<and> metadata_get (snd (snd overlapped)) ''a.txt'' \<noteq> Inr (Record (JObj [(ustr ''k'', JInt 1)]))"
  by code_simp

subsection \<open>Names other than that of the metadata document\<close>

lemma child_not_metadata_file:
  "seg \<noteq> ''metadata.json'' \<Longrightarrow> STORAGE_DIR @ CHR ''/'' # seg \<noteq> METADATA_FILE"
  by (simp add: metadata_file_eq)

lemma child_not_storage: "STORAGE_DIR @ CHR ''/'' # seg \<noteq> STORAGE_DIR"
  by simp

lemma node_at_update:
  "node_at (AList.update k n fs) p = (if resolve p = k then Some n else node_at fs p)"
  by (simp add: node_at_def update_conv')

lemma node_at_delete:
  "node_at (AList.delete k fs) p = (if resolve p = k then None else node_at fs p)"
  by (simp add: node_at_def delete_conv')

lemma load_metadata_cong:
  "node_at fs' METADATA_FILE = node_at fs METADATA_FILE \<Longrightarrow> load_metadata fs' = load_metadata fs"
  by (simp add: load_metadata_def read_text_def)

lemma wf_setdefault:
  assumes "wf_json (JObj kvs)"
  shows "wf_json (JObj (if ustr k \<in> fst ` set kvs then kvs else kvs @ [(ustr k, JObj [])]))"
  using assms wf_ustr [of k] by auto

lemma wf_delete:
  assumes "wf_json (JObj kvs)"
  shows "wf_json (JObj (AList.delete k kvs))"
proof -
  have "distinct (map fst (AList.delete k kvs))" using assms by (simp add: distinct_delete)
  moreover have "set (AList.delete k kvs) \<subseteq> set kvs" by (auto simp: AList.delete_eq)
  then have "list_all (\<lambda>kv. wf_ustring (fst kv) \<and> wf_json (snd kv)) (AList.delete k kvs)"
    using assms by (auto simp: list_all_iff)
  ultimately show ?thesis by simp
qed

text \<open>The effect of an upload under a name other than that of the metadata document.\<close>

lemma upload_file_effect:
  assumes ok: "store_ok fs" and len: "content_length req \<le> MAX_CONTENT_LENGTH"
    and part: "file_part req = Some (raw, data)"
    and ne: "secure_filename raw \<noteq> []" and nm: "secure_filename raw \<noteq> ''metadata.json''"
    and nd: "node_at fs (STORAGE_DIR @ CHR ''/'' # secure_filename raw) \<noteq> Some Dir"
  shows "\<exists>kvs fs'. load_metadata fs = JObj kvs
     \<and> upload_file fs now req = (Inr (Uploaded (secure_filename raw)), fs')
     \<and> node_at fs' (STORAGE_DIR @ CHR ''/'' # secure_filename raw) = Some (File data now)
     \<and> load_metadata fs'
          = JObj (if ustr (secure_filename raw) \<in> fst ` set kvs then kvs
                  else kvs @ [(ustr (secure_filename raw), JObj [])])
     \<and> store_ok fs'"
proof -
  let ?seg = "secure_filename raw"
  let ?path = "STORAGE_DIR @ CHR ''/'' # ?seg"
  have seg: "segment ?seg" using secure_filename_segment [of raw] ne by simp
  have rp: "resolve ?path = ?path" using seg by (rule resolve_child)
  have pp: "path_parent ?path = STORAGE_DIR" using seg by (rule path_parent_child)
  have pm: "?path \<noteq> METADATA_FILE" using nm by (rule child_not_metadata_file)
  from ok have d: "node_at fs STORAGE_DIR = Some Dir" and md: "node_at fs METADATA_FILE \<noteq> Some Dir"
    and "is_dict (load_metadata fs)" by (simp_all add: store_ok_def)
  then obtain kvs where kvs: "load_metadata fs = JObj kvs" using is_dict_cases by blast
  let ?fs1 = "AList.update ?path (File data now) fs"
  have w1: "write_file fs ?path data now = Inr ?fs1"
    using nd d by (auto simp: write_file_def rp pp split: option.splits node.splits)
  have m1: "node_at ?fs1 METADATA_FILE = node_at fs METADATA_FILE"
    using pm by (simp add: node_at_update resolve_metadata_file)
  have l1: "load_metadata ?fs1 = JObj kvs" using load_metadata_cong [OF m1] kvs by simp
  have d1: "node_at ?fs1 STORAGE_DIR = Some Dir"
    using d by (simp add: node_at_update resolve_storage)
  have md1: "node_at ?fs1 METADATA_FILE \<noteq> Some Dir" using m1 md by simp
  let ?md = "JObj (if ustr ?seg \<in> fst ` set kvs then kvs else kvs @ [(ustr ?seg, JObj [])])"
  let ?fs2 = "AList.update METADATA_FILE (File (json_dumps ?md) now) ?fs1"
  have wmd: "wf_json ?md" using load_metadata_wf [of fs] unfolding kvs by (rule wf_setdefault)
  have raw: "raw \<noteq> []" using ne by (auto simp: secure_filename_def split_ws_def strip_chars_def
        ascii_ignore_def replace_sep_def)
  have up: "upload_file fs now req = (Inr (Uploaded ?seg), ?fs2)"
    using len raw
    by (simp add: upload_file_def part Let_def path_join_segment [OF seg] w1 l1
        save_metadata_ok [OF d1 md1])
  have n2: "node_at ?fs2 ?path = Some (File data now)"
    using pm by (simp add: node_at_after_save rp node_at_update)
  have l2: "load_metadata ?fs2 = ?md" using wmd by (rule load_after_save)
  have s2: "store_ok ?fs2" using d1 wmd by (rule store_ok_after_save) simp
  show ?thesis using kvs up n2 l2 s2 by blast
qed

lemma download_file_regular:
  assumes "secure_filename raw \<noteq> []"
    and "node_at fs (STORAGE_DIR @ CHR ''/'' # secure_filename raw) = Some (File data t)"
  shows "download_file fs raw = Inr (Attachment data)"
proof -
  have seg: "segment (secure_filename raw)" using secure_filename_segment [of raw] assms(1) by simp
  show ?thesis
    using assms(2)
    by (simp add: download_file_def Let_def path_join_segment [OF seg] exists_def
        within_child [OF seg] send_from_directory_def safe_join_segment [OF seg])
qed

lemma download_file_missing:
  assumes "secure_filename raw \<noteq> []"
    and "node_at fs (STORAGE_DIR @ CHR ''/'' # secure_filename raw) = None"
  shows "download_file fs raw = Inl NotFound"
proof -
  have seg: "segment (secure_filename raw)" using secure_filename_segment [of raw] assms(1) by simp
  show ?thesis
    using assms(2) by (simp add: download_file_def Let_def path_join_segment [OF seg] exists_def)
qed

text \<open>
  For every name that is not empty after sanitization and is not the name of the metadata
  document: what is uploaded is what a download returns, and the record the name had is
  kept.
\<close>

lemma upload_then_download:
  assumes "store_ok fs" and "content_length req \<le> MAX_CONTENT_LENGTH"
    and "file_part req = Some (raw, data)"
    and "secure_filename raw \<noteq> []" and "secure_filename raw \<noteq> ''metadata.json''"
    and "node_at fs (STORAGE_DIR @ CHR ''/'' # secure_filename raw) \<noteq> Some Dir"
  shows "fst (upload_file fs now req) = Inr (Uploaded (secure_filename raw))
     \<and> download_file (snd (upload_file fs now req)) raw = Inr (Attachment data)"
proof -
  from upload_file_effect [OF assms, of now] obtain fs' where
    u: "upload_file fs now req = (Inr (Uploaded (secure_filename raw)), fs')"
    and n: "node_at fs' (STORAGE_DIR @ CHR ''/'' # secure_filename raw) = Some (File data now)"
    by blast
  show ?thesis using u download_file_regular [OF assms(4) n] by simp
qed

lemma upload_keeps_record:
  assumes "store_ok fs" and "content_length req \<le> MAX_CONTENT_LENGTH"
    and "file_part req = Some (raw, data)"
    and "secure_filename raw \<noteq> []" and "secure_filename raw \<noteq> ''metadata.json''"
    and "node_at fs (STORAGE_DIR @ CHR ''/'' # secure_filename raw) \<noteq> Some Dir"
    and "load_metadata fs = JObj kvs" and "map_of kvs (ustr (secure_filename raw)) = Some r"
  shows "metadata_get (snd (upload_file fs now req)) raw = Inr (Record r)"
proof -
  from upload_file_effect [OF assms(1-6), of now] assms(7) obtain fs' where
    u: "upload_file fs now req = (Inr (Uploaded (secure_filename raw)), fs')"
    and l: "load_metadata fs'
          = JObj (if ustr (secure_filename raw) \<in> fst ` set kvs then kvs
                  else kvs @ [(ustr (secure_filename raw), JObj [])])"
    by auto
  have "(ustr (secure_filename raw), r) \<in> set kvs" using assms(8) by (rule map_of_SomeD)
  then have "ustr (secure_filename raw) \<in> fst ` set kvs" by force
  then have "load_metadata fs' = JObj kvs" using l by simp
  then show ?thesis using u assms(8) by (simp add: metadata_get_dict)
qed

text \<open>After an upload and a delete of such a name, the file and its record are gone.\<close>

lemma delete_file_effect:
  assumes ok: "store_ok fs"
    and ne: "secure_filename raw \<noteq> []" and nm: "secure_filename raw \<noteq> ''metadata.json''"
    and f: "node_at fs (STORAGE_DIR @ CHR ''/'' # secure_filename raw) = Some (File data t)"
  shows "fst (delete_file fs now raw) = Inr (Deleted (secure_filename raw))
     \<and> download_file (snd (delete_file fs now raw)) raw = Inl NotFound
     \<and> metadata_get (snd (delete_file fs now raw)) raw = Inr (Record (JObj []))"
proof -
  let ?seg = "secure_filename raw"
  let ?path = "STORAGE_DIR @ CHR ''/'' # ?seg"
  have seg: "segment ?seg" using secure_filename_segment [of raw] ne by simp
  have rp: "resolve ?path = ?path" using seg by (rule resolve_child)
  have pm: "?path \<noteq> METADATA_FILE" using nm by (rule child_not_metadata_file)
  from ok have d: "node_at fs STORAGE_DIR = Some Dir" and md: "node_at fs METADATA_FILE \<noteq> Some Dir"
    and "is_dict (load_metadata fs)" by (simp_all add: store_ok_def)
  then obtain kvs where kvs: "load_metadata fs = JObj kvs" using is_dict_cases by blast
  let ?fs1 = "AList.delete ?path fs"
  have u1: "unlink fs ?path = Inr ?fs1" using f by (simp add: unlink_def rp)
  have m1: "node_at ?fs1 METADATA_FILE = node_at fs METADATA_FILE"
    using pm by (simp add: node_at_delete resolve_metadata_file)
  have l1: "load_metadata ?fs1 = JObj kvs" using load_metadata_cong [OF m1] kvs by simp
  have d1: "node_at ?fs1 STORAGE_DIR = Some Dir"
    using d by (simp add: node_at_delete resolve_storage)
  have md1: "node_at ?fs1 METADATA_FILE \<noteq> Some Dir" using m1 md by simp
  let ?md = "JObj (AList.delete (ustr ?seg) kvs)"
  let ?fs2 = "AList.update METADATA_FILE (File (json_dumps ?md) now) ?fs1"
  have wmd: "wf_json ?md" using load_metadata_wf [of fs] unfolding kvs by (rule wf_delete)
  have del: "delete_file fs now raw = (Inr (Deleted ?seg), ?fs2)"
    using f
    by (simp add: delete_file_def Let_def path_join_segment [OF seg] exists_def u1 l1
        save_metadata_ok [OF d1 md1])
  have n2: "node_at ?fs2 ?path = None"
    using pm by (simp add: node_at_after_save rp node_at_delete)
  have l2: "load_metadata ?fs2 = ?md" using wmd by (rule load_after_save)
  have g: "metadata_get ?fs2 raw = Inr (Record (JObj []))"
    by (simp add: metadata_get_dict [OF l2] delete_conv')
  show ?thesis using del download_file_missing [OF ne n2] g by simp
qed

lemma upload_then_delete:
  assumes "store_ok fs" and "content_length req \<le> MAX_CONTENT_LENGTH"
    and "file_part req = Some (raw, data)"
    and "secure_filename raw \<noteq> []" and "secure_filename raw \<noteq> ''metadata.json''"
    and "node_at fs (STORAGE_DIR @ CHR ''/'' # secure_filename raw) \<noteq> Some Dir"
  shows "fst (delete_file (snd (upload_file fs now req)) now' raw) = Inr (Deleted (secure_filename raw))
     \<and> download_file (snd (delete_file (snd (upload_file fs now req)) now' raw)) raw = Inl NotFound
     \<and> metadata_get (snd (delete_file (snd (upload_file fs now req)) now' raw)) raw
         = Inr (Record (JObj []))"
proof -
  from upload_file_effect [OF assms, of now] obtain fs' where
    u: "upload_file fs now req = (Inr (Uploaded (secure_filename raw)), fs')"
    and n: "node_at fs' (STORAGE_DIR @ CHR ''/'' # secure_filename raw) = Some (File data now)"
    and s: "store_ok fs'"
    by blast
  show ?thesis using delete_file_effect [OF s assms(4,5) n, of now'] u by simp
qed

end

